theory Spec2Isabelle
  imports Main "HOL-Library.Sublist"
begin

section \<open>EmailWorker2TG: escaping, HTML transduction and chunking\<close>

text \<open>
  A shallow embedding of the worker that forwards an inbound email to a chat: the
  MarkdownV2 escaper, the HTMLRewriter handlers that turn an HTML body into text with
  placeholder markers and a queue of link descriptors, the chunker that splits the text
  into messages of bounded length while putting the links back, and the delivery loop
  with the top-level email handler.

  JavaScript strings are modelled as lists of code units, restricted to the code units
  \<open>0..255\<close> (type \<^typ>\<open>char\<close>); \<open>length\<close> is then the \<open>.length\<close> of the source.
  Every character class of the source is intersected with that range.
\<close>

subsection \<open>Strings\<close>

definition backslash :: char where
  "backslash = CHR 0x5C"

definition LF :: char where "LF = CHR 0x0A"
definition CR :: char where "CR = CHR 0x0D"

definition is_space :: "char \<Rightarrow> bool" where
  "is_space c = (c \<in> set [CHR 0x09, CHR 0x0A, CHR 0x0B, CHR 0x0C, CHR 0x0D, CHR 0x20, CHR 0xA0])"

definition trim :: "string \<Rightarrow> string" where
  "trim s = rev (dropWhile is_space (rev (dropWhile is_space s)))"

definition toLowerCase_char :: "char \<Rightarrow> char" where
  "toLowerCase_char c =
     (let n = (of_char c :: nat)
      in if (65 \<le> n \<and> n \<le> 90) \<or> (192 \<le> n \<and> n \<le> 222 \<and> n \<noteq> 215)
         then char_of (n + 32) else c)"

definition toLowerCase :: "string \<Rightarrow> string" where
  "toLowerCase s = map toLowerCase_char s"

definition substring :: "string \<Rightarrow> nat \<Rightarrow> nat \<Rightarrow> string" where
  "substring s start end =
     (let a = min start (length s); b = min end (length s)
      in take (max a b - min a b) (drop (min a b) s))"

text \<open>
  \<open>is_space\<close> is the class \<open>\s\<close> of the regular expressions and the set stripped by
  \<open>String.prototype.trim\<close>; \<open>toLowerCase\<close> and \<open>substring\<close> follow the built-ins of the
  same names (\<open>substring\<close> clamps both indices to the length and swaps them when needed).
\<close>

subsection \<open>Markup escaper\<close>

text \<open>
  \<open>escapeMarkdownV2\<close> replaces every match of \<open>/(?<!\\)[_*\[\]()~`>#+\-=|{}.!]/g\<close> by a
  backslash followed by the match. The lookbehind inspects the input, so the scan carries
  whether the previous input character was a backslash.
\<close>

definition charsToEscape :: string where
  "charsToEscape = ''_*[]()~`>#+-=|{}.!''"

fun escape_from :: "bool \<Rightarrow> string \<Rightarrow> string" where
  "escape_from prev [] = []"
| "escape_from prev (c # cs) =
     (if c \<in> set charsToEscape \<and> \<not> prev
      then backslash # c # escape_from (c = backslash) cs
      else c # escape_from (c = backslash) cs)"

definition escapeMarkdownV2 :: "string \<Rightarrow> string" where
  "escapeMarkdownV2 text = escape_from False text"

subsection \<open>Link queue and chunker\<close>

text \<open>
  \<open>linksList\<close> is a queue of link descriptors. \<open>split_linkReplacer\<close> is
  \<open>text.split(/#{15}/)\<close>: the scan looks for a match at each position, and after a match
  continues behind it. \<open>count_markers\<close> counts those matches.
\<close>

definition MAX_TELEGRAM_MESSAGE_LENGTH :: nat where
  "MAX_TELEGRAM_MESSAGE_LENGTH = 3500"

record link_descriptor =
  desc :: string
  link :: string

definition marker :: string where
  "marker = replicate 15 (CHR ''#'')"

definition linkReplacer_at :: "string \<Rightarrow> bool" where
  "linkReplacer_at s = (take 15 s = marker)"

fun split_loop :: "string \<Rightarrow> string \<Rightarrow> string list" where
  "split_loop cur [] = [cur]"
| "split_loop cur (c # cs) =
     (if linkReplacer_at (c # cs) then cur # split_loop [] (drop 14 cs)
      else split_loop (cur @ [c]) cs)"

definition split_linkReplacer :: "string \<Rightarrow> string list" where
  "split_linkReplacer text = split_loop [] text"

fun count_markers :: "string \<Rightarrow> nat" where
  "count_markers [] = 0"
| "count_markers (c # cs) =
     (if linkReplacer_at (c # cs) then Suc (count_markers (drop 14 cs))
      else count_markers cs)"

text \<open>
  \<open>splitAndPush\<close> keeps the loop index of the source. \<open>loop_body\<close> is one iteration of the
  loop over the fragments in \<open>sendSplitMessage\<close>: append the fragment, cut the builder when
  it is too long, take the next descriptor off the queue and append its rendering, after
  flushing the builder when both would not fit. \<open>build_chunks\<close> is the first half of
  \<open>sendSplitMessage\<close>, up to the final flush; it returns the chunks and what is left of
  the queue.
\<close>

function splitAndPush_from :: "nat \<Rightarrow> string list \<Rightarrow> string \<Rightarrow> string list \<times> string" where
  "splitAndPush_from i arr text =
     (if i < length text then
        (let chunk = substring text i (i + MAX_TELEGRAM_MESSAGE_LENGTH)
         in if length chunk < MAX_TELEGRAM_MESSAGE_LENGTH then (arr, chunk)
            else splitAndPush_from (i + MAX_TELEGRAM_MESSAGE_LENGTH) (arr @ [chunk]) text)
      else (arr, []))"
  by pat_completeness auto
termination
  by (relation "measure (\<lambda>(i, arr, text). length text - i)")
     (auto simp: MAX_TELEGRAM_MESSAGE_LENGTH_def)

definition splitAndPush :: "string list \<Rightarrow> string \<Rightarrow> string list \<times> string" where
  "splitAndPush arr text = splitAndPush_from 0 arr text"

definition linkEntity :: "link_descriptor \<Rightarrow> string" where
  "linkEntity l = '' ['' @ desc l @ '']('' @ link l @ '') ''"

definition loop_body ::
  "string list \<times> string \<times> link_descriptor list \<Rightarrow> string
     \<Rightarrow> string list \<times> string \<times> link_descriptor list" where
  "loop_body s t =
     (case s of (chunks, builder, linksList) \<Rightarrow>
        (let builder1 = builder @ t;
             (chunks1, builder2) =
               (if length builder1 > MAX_TELEGRAM_MESSAGE_LENGTH
                then splitAndPush chunks builder1 else (chunks, builder1))
         in case linksList of
              [] \<Rightarrow> (chunks1, builder2, [])
            | l # rest \<Rightarrow>
                (if length builder2 + length (linkEntity l) > MAX_TELEGRAM_MESSAGE_LENGTH
                 then (chunks1 @ [builder2], [] @ linkEntity l, rest)
                 else (chunks1, builder2 @ linkEntity l, rest))))"

fun chunk_loop ::
  "string list \<Rightarrow> string list \<times> string \<times> link_descriptor list
     \<Rightarrow> string list \<times> string \<times> link_descriptor list" where
  "chunk_loop [] s = s"
| "chunk_loop (t # ts) s = chunk_loop ts (loop_body s t)"

definition build_chunks :: "string \<Rightarrow> link_descriptor list \<Rightarrow> string list \<times> link_descriptor list" where
  "build_chunks text linksList =
     (case chunk_loop (split_linkReplacer text) ([], [], linksList) of
        (chunks, builder, q) \<Rightarrow>
          (if length builder > 0 then chunks @ [builder] else chunks, q))"

subsection \<open>The HTML rewriter and its handlers\<close>

text \<open>
  The document is given as the rewriter sees it: elements with their tag name, attributes,
  the source text of their start and end tags, and children; text nodes as the list of
  chunks they are delivered in (the last chunk has \<open>lastInTextNode\<close>); comments; the
  doctype with its source text. \<open>transform_nodes\<close> is the platform's rewriter driving the
  two handlers of \<open>ElementHandler\<close> in document order. It follows the documented
  contract of the rewriter: \<open>remove()\<close> drops the element with its content,
  \<open>removeAndKeepContent()\<close> drops the two tags only, an element left alone is copied
  as it is, \<open>text.replace\<close> puts the replacement in the place of the chunk,
  \<open>text.after\<close> adds behind it, and a chunk left alone is copied as it is. Comments are
  removed by the document handler. \<open>processHtml\<close> registers the handlers with
  \<open>on('*', ...)\<close>, as handlers of the content of elements: the text handler is called
  for the text inside an element, and text that stands outside every element gets no
  callback and is copied as it is. \<open>inside\<close> says that the nodes processed stand inside an
  element; it is false for the document's top level. Whether the handlers still run on
  the content of a removed element (with nothing of it reaching the output) is not fixed
  by that contract: the flag \<open>cb\<close> selects it, and the theorems below hold for both values
  unless they say otherwise. \<open>emit\<close> is false inside removed content. \<open>decode\<close> is the
  entity decoder of the \<open>html-entities\<close> package, a parameter throughout.

  A value that is a string or \<open>null\<close> is a \<^typ>\<open>string option\<close>; \<open>truthy\<close> is its
  JavaScript truth value.
\<close>

type_synonym attributes = "(string \<times> string) list"

datatype node =
    Element string attributes string string "node list"
  | TextNode "string list"
  | CommentNode string
  | DoctypeNode string

record handler =
  tag :: string
  herf :: "string option"
  src :: "string option"
  nestedInA :: bool
  linksList :: "link_descriptor list"

definition new_ElementHandler :: "link_descriptor list \<Rightarrow> handler" where
  "new_ElementHandler q =
     \<lparr>tag = [], herf = Some [], src = Some [], nestedInA = False, linksList = q\<rparr>"

definition truthy :: "string option \<Rightarrow> bool" where
  "truthy v = (case v of None \<Rightarrow> False | Some s \<Rightarrow> s \<noteq> [])"

definition string_of :: "string option \<Rightarrow> string" where
  "string_of v = (case v of None \<Rightarrow> [] | Some s \<Rightarrow> s)"

definition getAttribute :: "attributes \<Rightarrow> string \<Rightarrow> string option" where
  "getAttribute attrs name = map_of attrs name"

datatype element_action = Remove | Untouched | RemoveAndKeepContent

definition removed_tags :: "string list" where
  "removed_tags = [''style'', ''script'', ''meta'', ''xml'', ''head'']"

definition media_tags :: "string list" where
  "media_tags = [''img'', ''video'', ''iframe'', ''audio'']"

definition inline_tags :: "string list" where
  "inline_tags = [''span'', ''strong'', ''em'', ''b'', ''i'', ''del'', ''ins'', ''sub'', ''sup'', ''a'']"

definition ElementHandler_element ::
  "handler \<Rightarrow> string \<Rightarrow> attributes \<Rightarrow> handler \<times> element_action \<times> bool" where
  "ElementHandler_element h tagName attrs =
     (if toLowerCase tagName \<in> set removed_tags then (h, Remove, False)
      else if toLowerCase tagName \<in> set [''br''] then (h, Untouched, False)
      else
        (let h1 = h\<lparr>tag := toLowerCase tagName\<rparr>;
             h2 = (if tagName = ''a''
                   then h1\<lparr>herf := getAttribute attrs ''href'', nestedInA := True\<rparr> else h1);
             h3 = (if toLowerCase tagName \<in> set media_tags
                   then h2\<lparr>src := getAttribute attrs ''src''\<rparr> else h2)
         in (h3, RemoveAndKeepContent, tagName = ''a'')))"

definition onEndTag :: "bool \<Rightarrow> handler \<Rightarrow> handler" where
  "onEndTag registered h = (if registered then h\<lparr>nestedInA := False\<rparr> else h)"

definition link_fallback :: string where
  "link_fallback = ''link'' @ [backslash] @ ''-'' @ [backslash] @ ''>''"

definition ElementHandler_text ::
  "(string \<Rightarrow> string) \<Rightarrow> handler \<Rightarrow> string \<Rightarrow> bool \<Rightarrow> handler \<times> string" where
  "ElementHandler_text decode h txt lastInTextNode =
     (let after = (if tag h = ''td'' then '' '' else [])
      in if tag h = ''a'' \<and> truthy (herf h) then
           (let d = trim (escapeMarkdownV2 (decode txt));
                dsc = (if d = [] then link_fallback else d)
            in (h\<lparr>linksList := linksList h @ [\<lparr>desc = dsc, link = string_of (herf h)\<rparr>],
                  herf := Some []\<rparr>,
                marker @ after))
         else if tag h \<in> set media_tags \<and> \<not> nestedInA h then
           (if lastInTextNode \<and> truthy (src h) then
              (h\<lparr>linksList := linksList h @ [\<lparr>desc = tag h, link = string_of (src h)\<rparr>],
                 tag := []\<rparr>,
               marker @ after)
            else (h, txt @ after))
         else if tag h \<in> set inline_tags then
           (h, escapeMarkdownV2 (decode txt) @ after)
         else (h, escapeMarkdownV2 (decode txt) @ [LF] @ after))"

fun text_chunks ::
  "(string \<Rightarrow> string) \<Rightarrow> bool \<Rightarrow> handler \<Rightarrow> string list \<Rightarrow> handler \<times> string" where
  "text_chunks decode emit h [] = (h, [])"
| "text_chunks decode emit h (c # cs) =
     (case ElementHandler_text decode h c (cs = []) of (h1, o1) \<Rightarrow>
        (case text_chunks decode emit h1 cs of (h2, o2) \<Rightarrow>
           (h2, (if emit then o1 else []) @ o2)))"

fun transform_node ::
  "bool \<Rightarrow> (string \<Rightarrow> string) \<Rightarrow> bool \<Rightarrow> bool \<Rightarrow> handler \<Rightarrow> node \<Rightarrow> handler \<times> string"
and transform_nodes ::
  "bool \<Rightarrow> (string \<Rightarrow> string) \<Rightarrow> bool \<Rightarrow> bool \<Rightarrow> handler \<Rightarrow> node list
     \<Rightarrow> handler \<times> string"
where
  "transform_node cb decode emit inside h (Element tagName attrs rawStart rawEnd kids) =
     (case ElementHandler_element h tagName attrs of (h1, act, registered) \<Rightarrow>
        (case act of
           Remove \<Rightarrow>
             (if cb then (fst (transform_nodes cb decode False True h1 kids), []) else (h1, []))
         | Untouched \<Rightarrow>
             (case transform_nodes cb decode emit True h1 kids of (h2, out) \<Rightarrow>
                (h2, if emit then rawStart @ out @ rawEnd else []))
         | RemoveAndKeepContent \<Rightarrow>
             (case transform_nodes cb decode emit True h1 kids of (h2, out) \<Rightarrow>
                (onEndTag registered h2, out))))"
| "transform_node cb decode emit inside h (TextNode chunks) =
     (if inside then text_chunks decode emit h chunks
      else (h, if emit then concat chunks else []))"
| "transform_node cb decode emit inside h (CommentNode c) = (h, [])"
| "transform_node cb decode emit inside h (DoctypeNode raw) = (h, if emit then raw else [])"
| "transform_nodes cb decode emit inside h [] = (h, [])"
| "transform_nodes cb decode emit inside h (n # ns) =
     (case transform_node cb decode emit inside h n of (h1, o1) \<Rightarrow>
        (case transform_nodes cb decode emit inside h1 ns of (h2, o2) \<Rightarrow> (h2, o1 @ o2)))"

subsection \<open>Document-level cleanup\<close>

text \<open>
  The four replacements at the end of \<open>processHtml\<close>, each written as the scan its regular
  expression performs. \<open>doctype_match\<close>: \<open>/<!doctype.*>\n?/i\<close>, the greedy \<open>.*\<close> stays on
  one line and gives back to the last \<open>>\<close> of that line. \<open>br_match\<close>: \<open>/<\s*br\s*\/?>/\<close>.
  \<open>blank_run_match\<close>: \<open>/(\s*\n){2,}/\<close>, which at a position matches up to the last newline
  of the run of white space that starts there, when that run has two newlines or more.
  Each match function returns the length of the match at the head of the string.
\<close>

definition doctype_match :: "string \<Rightarrow> nat option" where
  "doctype_match s =
     (if toLowerCase (take 9 s) = ''<!doctype'' then
        (let line = takeWhile (\<lambda>c. c \<noteq> LF \<and> c \<noteq> CR) (drop 9 s)
         in if CHR ''>'' \<in> set line then
              (let k = 9 + (length line - length (takeWhile (\<lambda>c. c \<noteq> CHR ''>'') (rev line)))
               in Some (if take 1 (drop k s) = [LF] then Suc k else k))
            else None)
      else None)"

fun strip_doctype :: "string \<Rightarrow> string" where
  "strip_doctype [] = []"
| "strip_doctype (c # cs) =
     (case doctype_match (c # cs) of
        Some n \<Rightarrow> drop n (c # cs)
      | None \<Rightarrow> c # strip_doctype cs)"

definition strip_invisible :: "string \<Rightarrow> string" where
  "strip_invisible s = filter (\<lambda>c. c \<noteq> CHR 0xA0) s"

definition br_match :: "string \<Rightarrow> nat option" where
  "br_match s =
     (case s of
        [] \<Rightarrow> None
      | c # r \<Rightarrow>
          if c \<noteq> CHR ''<'' then None
          else
            (let r1 = dropWhile is_space r in
             if take 2 r1 \<noteq> ''br'' then None
             else
               (let r2 = dropWhile is_space (drop 2 r1);
                    r3 = (if take 1 r2 = ''/'' then drop 1 r2 else r2)
                in if take 1 r3 = ''>'' then Some (length s - length r3 + 1) else None)))"

fun replace_br :: "string \<Rightarrow> string" where
  "replace_br [] = []"
| "replace_br (c # cs) =
     (case br_match (c # cs) of
        Some n \<Rightarrow> LF # replace_br (drop (n - 1) cs)
      | None \<Rightarrow> c # replace_br cs)"

definition blank_run_match :: "string \<Rightarrow> nat option" where
  "blank_run_match s =
     (let w = takeWhile is_space s
      in if 2 \<le> length (filter (\<lambda>c. c = LF) w)
         then Some (length w - length (takeWhile (\<lambda>c. c \<noteq> LF) (rev w)))
         else None)"

fun collapse_blank_lines :: "string \<Rightarrow> string" where
  "collapse_blank_lines [] = []"
| "collapse_blank_lines (c # cs) =
     (case blank_run_match (c # cs) of
        Some n \<Rightarrow> LF # collapse_blank_lines (drop (n - 1) cs)
      | None \<Rightarrow> c # collapse_blank_lines cs)"

definition cleanup :: "string \<Rightarrow> string" where
  "cleanup text = collapse_blank_lines (replace_br (strip_invisible (strip_doctype text)))"

definition processHtml ::
  "bool \<Rightarrow> (string \<Rightarrow> string) \<Rightarrow> link_descriptor list \<Rightarrow> node list
     \<Rightarrow> string \<times> link_descriptor list" where
  "processHtml cb decode q html =
     (case transform_nodes cb decode True False (new_ElementHandler q) html of
        (h, text) \<Rightarrow> (cleanup text, linksList h))"

subsection \<open>Delivery and the email handler\<close>

text \<open>
  An exception is a value of \<open>js_error\<close>; a function that may throw returns a sum with
  the error on the left. The transport is an oracle: \<open>tr n\<close> is what the \<open>n\<close>-th call of
  \<open>fetch\<close> does, either rejecting (also when the body of the response cannot be read) or
  responding with the fields \<open>ok\<close>, \<open>description\<close> and \<open>result.message_id\<close>. The requests
  made are logged in order. \<open>send_chunks\<close> is the second half of \<open>sendSplitMessage\<close>.

  The parsed email is what the mail parser returns, with the date already formatted and
  the HTML body as the rewriter sees it. The literal texts of the message templates that
  lie outside the modelled character range are the fields of \<open>literals\<close>.
  \<open>email\<close> is the entry point: the call of the parser and the formatting of the header
  fields come before the \<open>try\<close>, \<open>try_block\<close> and \<open>catch_block\<close> are its two blocks.
\<close>

datatype js_error = Error string | TypeError string

definition message_of :: "js_error \<Rightarrow> string" where
  "message_of e = (case e of Error m \<Rightarrow> m | TypeError m \<Rightarrow> m)"

datatype fetch_outcome = Rejects string | Responds bool string nat

record attachment =
  filename :: string
  mimeType :: string
  content :: "nat list"

datatype request =
    SendMessage string "nat option"
  | SendDocument attachment nat

type_synonym transport = "nat \<Rightarrow> fetch_outcome"

fun send_chunks ::
  "transport \<Rightarrow> string list \<Rightarrow> nat option \<Rightarrow> request list
     \<Rightarrow> (js_error + nat option) \<times> request list" where
  "send_chunks tr [] lastMessageId log = (Inr lastMessageId, log)"
| "send_chunks tr (chunk # chunks) lastMessageId log =
     (let payload = SendMessage chunk
            (case lastMessageId of None \<Rightarrow> None | Some i \<Rightarrow> if i \<noteq> 0 then Some i else None);
          log1 = log @ [payload]
      in case tr (length log) of
           Rejects m \<Rightarrow> (Inl (Error m), log1)
         | Responds ok description message_id \<Rightarrow>
             if \<not> ok then
               (if lastMessageId = None then (Inl (Error description), log1)
                else (Inr lastMessageId, log1))
             else send_chunks tr chunks (Some message_id) log1)"

definition sendSplitMessage ::
  "transport \<Rightarrow> string \<Rightarrow> link_descriptor list \<Rightarrow> request list
     \<Rightarrow> (js_error + nat option) \<times> link_descriptor list \<times> request list" where
  "sendSplitMessage tr text q log =
     (case build_chunks text q of (chunks, q1) \<Rightarrow>
        (case send_chunks tr chunks None log of (r, log1) \<Rightarrow> (r, q1, log1)))"

definition sendAttachment ::
  "transport \<Rightarrow> attachment \<Rightarrow> nat \<Rightarrow> request list \<Rightarrow> (js_error + unit) \<times> request list" where
  "sendAttachment tr a replyToMessageId log =
     (let log1 = log @ [SendDocument a replyToMessageId]
      in case tr (length log) of
           Rejects m \<Rightarrow> (Inl (Error m), log1)
         | Responds ok description message_id \<Rightarrow> (Inr (), log1))"

fun send_attachments ::
  "transport \<Rightarrow> attachment list \<Rightarrow> nat \<Rightarrow> request list \<Rightarrow> (js_error + unit) \<times> request list" where
  "send_attachments tr [] firstMessageId log = (Inr (), log)"
| "send_attachments tr (a # as) firstMessageId log =
     (case sendAttachment tr a firstMessageId log of
        (Inl e, log1) \<Rightarrow> (Inl e, log1)
      | (Inr u, log1) \<Rightarrow> send_attachments tr as firstMessageId log1)"

record mail_address =
  name :: "string option"
  address :: string

record parsed_email =
  email_from :: "mail_address option"
  email_to :: "mail_address list option"
  email_subject :: "string option"
  email_date :: "string option"
  email_html :: "node list option"
  email_text :: "string option"
  email_attachments :: "attachment list"

record literals =
  title_line :: string
  unknown_sender :: string
  unknown_recipient :: string
  no_subject :: string
  no_content :: string
  body_error :: string

definition format_address :: "mail_address \<Rightarrow> string" where
  "format_address a =
     escapeMarkdownV2 (case name a of None \<Rightarrow> [] | Some n \<Rightarrow> n)
       @ '' <`'' @ address a @ ''`'' @ [backslash] @ ''>''"

fun join :: "string \<Rightarrow> string list \<Rightarrow> string" where
  "join sep [] = []"
| "join sep [x] = x"
| "join sep (x # y # ys) = x @ sep @ join sep (y # ys)"

definition dashes :: string where
  "dashes = [backslash] @ ''-'' @ [backslash] @ ''-'' @ [backslash] @ ''-''"

definition header_lines :: "literals \<Rightarrow> string \<Rightarrow> string \<Rightarrow> string \<Rightarrow> string option \<Rightarrow> string" where
  "header_lines lits subject from' to' date =
     title_line lits @ [LF] @ ''**'' @ subject @ ''**'' @ [LF]
       @ ''**From:** '' @ from' @ [LF]
       @ ''**To:** '' @ to'
       @ (if truthy date then [LF] @ ''**Date:** '' @ escapeMarkdownV2 (string_of date) else [])
       @ [LF]"

definition truthy_html :: "node list option \<Rightarrow> bool" where
  "truthy_html v = (case v of None \<Rightarrow> False | Some ns \<Rightarrow> ns \<noteq> [])"

definition nodes_of :: "node list option \<Rightarrow> node list" where
  "nodes_of v = (case v of None \<Rightarrow> [] | Some ns \<Rightarrow> ns)"

definition truthy_id :: "nat option \<Rightarrow> bool" where
  "truthy_id v = (case v of None \<Rightarrow> False | Some i \<Rightarrow> i \<noteq> 0)"

definition id_of :: "nat option \<Rightarrow> nat" where
  "id_of v = (case v of None \<Rightarrow> 0 | Some i \<Rightarrow> i)"

definition equals_signs :: string where
  "equals_signs = [backslash] @ ''='' @ [backslash] @ ''='' @ [backslash] @ ''='' @ [backslash] @ ''=''"

definition try_block ::
  "literals \<Rightarrow> bool \<Rightarrow> (string \<Rightarrow> string) \<Rightarrow> transport \<Rightarrow> parsed_email \<Rightarrow> string
     \<Rightarrow> link_descriptor list \<Rightarrow> (js_error + unit) \<times> link_descriptor list \<times> request list" where
  "try_block lits cb decode tr parsedEmail header q =
     (case (if truthy_html (email_html parsedEmail) then
              (case processHtml cb decode q (nodes_of (email_html parsedEmail)) of
                 (t, q') \<Rightarrow> (t, ''html'', q'))
            else if truthy (email_text parsedEmail) then
              (escapeMarkdownV2 (decode (string_of (email_text parsedEmail))), ''text'', q)
            else ([], equals_signs, q))
      of (escaped, separate, q1) \<Rightarrow>
        (let escaped1 = (if escaped = [] then no_content lits else escaped);
             fullMessageText =
               header @ dashes @ separate @ dashes @ [LF] @ escaped1 @ [LF] @ ''      ''
         in case sendSplitMessage tr fullMessageText q1 [] of
              (Inl e, q2, log) \<Rightarrow> (Inl e, q2, log)
            | (Inr firstMessageId, q2, log) \<Rightarrow>
                if length (email_attachments parsedEmail) > 0 \<and> truthy_id firstMessageId
                then (case send_attachments tr (email_attachments parsedEmail)
                             (id_of firstMessageId) log of
                        (r, log1) \<Rightarrow> (r, q2, log1))
                else (Inr (), q2, log)))"

definition catch_block ::
  "literals \<Rightarrow> transport \<Rightarrow> string \<Rightarrow> js_error \<Rightarrow> link_descriptor list \<Rightarrow> request list
     \<Rightarrow> (js_error + unit) \<times> link_descriptor list \<times> request list" where
  "catch_block lits tr header error q log =
     (case sendSplitMessage tr
             ([LF] @ header @ dashes @ body_error lits @ dashes @ [LF]
                @ escapeMarkdownV2 (message_of error) @ [LF]) q log of
        (Inl e, q1, log1) \<Rightarrow> (Inl e, q1, log1)
      | (Inr i, q1, log1) \<Rightarrow> (Inr (), q1, log1))"

definition email ::
  "literals \<Rightarrow> bool \<Rightarrow> (string \<Rightarrow> string) \<Rightarrow> transport \<Rightarrow> js_error + parsed_email
     \<Rightarrow> link_descriptor list \<Rightarrow> (js_error + unit) \<times> link_descriptor list \<times> request list" where
  "email lits cb decode tr parse_result q =
     (case parse_result of
        Inl e \<Rightarrow> (Inl e, q, [])
      | Inr parsedEmail \<Rightarrow>
          (let from' = (case email_from parsedEmail of
                          Some a \<Rightarrow> format_address a | None \<Rightarrow> unknown_sender lits);
               to' = (case email_to parsedEmail of
                        Some rcpts \<Rightarrow> join '', '' (map format_address rcpts)
                      | None \<Rightarrow> unknown_recipient lits)
           in case email_subject parsedEmail of
                None \<Rightarrow> (Inl (TypeError ''replace''), q, [])
              | Some s \<Rightarrow>
                  (let subject = (if escapeMarkdownV2 s = [] then no_subject lits
                                  else escapeMarkdownV2 s);
                       header = header_lines lits subject from' to' (email_date parsedEmail)
                   in case try_block lits cb decode tr parsedEmail header q of
                        (Inl error, q1, log) \<Rightarrow> catch_block lits tr header error q1 log
                      | (Inr u, q1, log) \<Rightarrow> (Inr (), q1, log))))"
subsection \<open>Notions used to state the properties\<close>

text \<open>
  \<open>pieces\<close> is the resolved text the chunker is to produce, fragment by fragment: each
  fragment of the split, followed by the rendering of the next queued descriptor while
  the queue lasts. \<open>link_spans\<close> gives the positions \<open>(start, end)\<close> of the rendered links
  in the concatenation of the pieces, \<open>boundaries\<close> the positions at which one chunk ends
  and the next begins (the two ends included), and \<open>atomic\<close> says that no boundary lies
  strictly inside a span.
\<close>

fun pieces :: "string list \<Rightarrow> link_descriptor list \<Rightarrow> (bool \<times> string) list" where
  "pieces [] q = []"
| "pieces (t # ts) [] = (False, t) # pieces ts []"
| "pieces (t # ts) (l # q) = (False, t) # (True, linkEntity l) # pieces ts q"

fun link_spans :: "nat \<Rightarrow> (bool \<times> string) list \<Rightarrow> (nat \<times> nat) list" where
  "link_spans off [] = []"
| "link_spans off ((is_link, s) # ps) =
     (if is_link then [(off, off + length s)] else []) @ link_spans (off + length s) ps"

definition boundaries :: "string list \<Rightarrow> nat list" where
  "boundaries chunks = map (\<lambda>k. length (concat (take k chunks))) [0..<Suc (length chunks)]"

definition atomic :: "string list \<Rightarrow> (nat \<times> nat) list \<Rightarrow> bool" where
  "atomic chunks spans = (\<forall>(a, b) \<in> set spans. \<forall>c \<in> set (boundaries chunks). c \<le> a \<or> b \<le> c)"

text \<open>
  \<open>wipe_text\<close> empties every text chunk of a subtree and keeps its shape;
  \<open>blank_style_script\<close> does so below every \<open>style\<close> and \<open>script\<close> element. \<open>control\<close> is
  the part of the handler state that decides what the handlers do next.
\<close>

fun wipe_text :: "node \<Rightarrow> node" where
  "wipe_text (Element tagName attrs rawStart rawEnd kids) =
     Element tagName attrs rawStart rawEnd (map wipe_text kids)"
| "wipe_text (TextNode chunks) = TextNode (map (\<lambda>c. []) chunks)"
| "wipe_text (CommentNode c) = CommentNode c"
| "wipe_text (DoctypeNode raw) = DoctypeNode raw"

fun blank_style_script :: "node \<Rightarrow> node" where
  "blank_style_script (Element tagName attrs rawStart rawEnd kids) =
     (if toLowerCase tagName \<in> set [''style'', ''script'']
      then Element tagName attrs rawStart rawEnd (map wipe_text kids)
      else Element tagName attrs rawStart rawEnd (map blank_style_script kids))"
| "blank_style_script (TextNode chunks) = TextNode chunks"
| "blank_style_script (CommentNode c) = CommentNode c"
| "blank_style_script (DoctypeNode raw) = DoctypeNode raw"

definition control :: "handler \<Rightarrow> string \<times> string option \<times> string option \<times> bool \<times> nat" where
  "control h = (tag h, herf h, src h, nestedInA h, length (linksList h))"

text \<open>
  \<open>text_or_comment\<close>: a text node or a comment; \<open>own_chunks\<close>: the chunks of a text
  node. \<open>no_anchor\<close>: a subtree without an element that the element handler takes for
  an anchor. \<open>no_text\<close>: a subtree without text nodes. \<open>copied_through\<close>: the text handler leaves
  the chunk as it is (the media branch, when it does not push). \<open>clean_nodes\<close> follows
  the rewriter through a document and says that nothing it copies as it is (such text
  chunks, text outside every element, \<open>br\<close> tags, the doctype) contains the marker
  character, and that no descriptor is pushed from inside a removed element. \<open>guarded_from\<close>: every marker character of a
  string stands directly behind a backslash (\<open>prev\<close> says that the character before the
  string is one). \<open>marked s n\<close>: \<open>s\<close> is made of \<open>n\<close> markers and of guarded strings.
\<close>

fun text_or_comment :: "node \<Rightarrow> bool" where
  "text_or_comment (TextNode chunks) = True"
| "text_or_comment (CommentNode c) = True"
| "text_or_comment n = False"

fun own_chunks :: "node \<Rightarrow> string list" where
  "own_chunks (TextNode chunks) = chunks"
| "own_chunks n = []"

fun no_anchor :: "node \<Rightarrow> bool" where
  "no_anchor (Element tagName attrs rawStart rawEnd kids) =
     (tagName \<noteq> ''a'' \<and> list_all no_anchor kids)"
| "no_anchor (TextNode chunks) = True"
| "no_anchor (CommentNode c) = True"
| "no_anchor (DoctypeNode raw) = True"

fun no_text :: "node \<Rightarrow> bool" where
  "no_text (Element tagName attrs rawStart rawEnd kids) = list_all no_text kids"
| "no_text (TextNode chunks) = False"
| "no_text (CommentNode c) = True"
| "no_text (DoctypeNode raw) = True"

definition copied_through :: "handler \<Rightarrow> bool \<Rightarrow> bool" where
  "copied_through h lastInTextNode =
     (\<not> (tag h = ''a'' \<and> truthy (herf h)) \<and> tag h \<in> set media_tags \<and> \<not> nestedInA h
      \<and> \<not> (lastInTextNode \<and> truthy (src h)))"

fun clean_chunks :: "(string \<Rightarrow> string) \<Rightarrow> handler \<Rightarrow> string list \<Rightarrow> bool" where
  "clean_chunks decode h [] = True"
| "clean_chunks decode h (c # cs) =
     ((copied_through h (cs = []) \<longrightarrow> CHR ''#'' \<notin> set c)
      \<and> clean_chunks decode (fst (ElementHandler_text decode h c (cs = []))) cs)"

fun clean_node :: "bool \<Rightarrow> (string \<Rightarrow> string) \<Rightarrow> bool \<Rightarrow> handler \<Rightarrow> node \<Rightarrow> bool"
and clean_nodes :: "bool \<Rightarrow> (string \<Rightarrow> string) \<Rightarrow> bool \<Rightarrow> handler \<Rightarrow> node list \<Rightarrow> bool"
where
  "clean_node cb decode inside h (Element tagName attrs rawStart rawEnd kids) =
     (case ElementHandler_element h tagName attrs of (h1, act, registered) \<Rightarrow>
        (case act of
           Remove \<Rightarrow>
             (cb \<longrightarrow> linksList (fst (transform_nodes cb decode False True h1 kids)) = linksList h1)
         | Untouched \<Rightarrow>
             CHR ''#'' \<notin> set rawStart \<and> CHR ''#'' \<notin> set rawEnd
             \<and> clean_nodes cb decode True h1 kids
         | RemoveAndKeepContent \<Rightarrow> clean_nodes cb decode True h1 kids))"
| "clean_node cb decode inside h (TextNode chunks) =
     (if inside then clean_chunks decode h chunks else CHR ''#'' \<notin> set (concat chunks))"
| "clean_node cb decode inside h (CommentNode c) = True"
| "clean_node cb decode inside h (DoctypeNode raw) = (CHR ''#'' \<notin> set raw)"
| "clean_nodes cb decode inside h [] = True"
| "clean_nodes cb decode inside h (n # ns) =
     (clean_node cb decode inside h n
      \<and> clean_nodes cb decode inside (fst (transform_node cb decode True inside h n)) ns)"

fun guarded_from :: "bool \<Rightarrow> string \<Rightarrow> bool" where
  "guarded_from prev [] = True"
| "guarded_from prev (c # cs) = ((c = CHR ''#'' \<longrightarrow> prev) \<and> guarded_from (c = backslash) cs)"

inductive marked :: "string \<Rightarrow> nat \<Rightarrow> bool" where
  marked_Nil: "marked [] 0"
| marked_text: "guarded_from False g \<Longrightarrow> marked s n \<Longrightarrow> marked (g @ s) n"
| marked_marker: "marked s n \<Longrightarrow> marked (marker @ s) (Suc n)"


section \<open>Verification\<close>

subsection \<open>Markup escaper\<close>

lemma backslash_not_reserved: "backslash \<notin> set charsToEscape"
  by (simp add: backslash_def charsToEscape_def)

lemma escape_from_idem: "escape_from p (escape_from p s) = escape_from p s"
  by (induction s arbitrary: p) (auto simp: backslash_not_reserved)

lemma escape_from_append:
  "escape_from p (xs @ ys) =
     escape_from p xs @ escape_from (if xs = [] then p else last xs = backslash) ys"
  by (induction xs arbitrary: p) auto

lemma escape_from_filter:
  "filter (\<lambda>c. c \<noteq> backslash) (escape_from p s) = filter (\<lambda>c. c \<noteq> backslash) s"
  by (induction s arbitrary: p) auto

lemma escape_from_subseq: "subseq s (escape_from p s)"
  by (induction s arbitrary: p) auto

lemma upt_Suc_shift: "[0..<Suc n] = 0 # map Suc [0..<n]"
  by (simp only: upt_conv_Cons [of 0 "Suc n"] map_Suc_upt)

lemma escape_from_positions:
  "escape_from p s =
     concat (map (\<lambda>i. if s ! i \<in> set charsToEscape
                          \<and> \<not> (if i = 0 then p else s ! (i - 1) = backslash)
                       then [backslash, s ! i] else [s ! i]) [0..<length s])"
proof (induction s arbitrary: p)
  case Nil
  then show ?case by simp
next
  case (Cons c cs)
  have tl: "map (\<lambda>i. if (c # cs) ! i \<in> set charsToEscape
                          \<and> \<not> (if i = 0 then p else (c # cs) ! (i - 1) = backslash)
                       then [backslash, (c # cs) ! i] else [(c # cs) ! i])
              (map Suc [0..<length cs])
          = map (\<lambda>i. if cs ! i \<in> set charsToEscape
                          \<and> \<not> (if i = 0 then c = backslash else cs ! (i - 1) = backslash)
                       then [backslash, cs ! i] else [cs ! i]) [0..<length cs]"
    by (simp add: nth_Cons split: nat.splits)
  show ?case
    unfolding length_Cons upt_Suc_shift list.map concat.simps tl
    using Cons.IH [of "c = backslash"] by simp
qed

text \<open>
  C4. Escaping is idempotent; a character that stands behind a backslash in the input is
  copied as it is; the result is the input with backslashes inserted and nothing else
  changed; and the backslashes are inserted exactly before the characters of the
  reserved set \<open>_ * [ ] ( ) ~ ` > # + - = | { } . !\<close> that do not stand directly behind a
  backslash of the input: position by position, such a character becomes the backslash
  and itself, and every other character (one outside the reserved set, or one behind a
  backslash) becomes itself alone.
\<close>

theorem escapeMarkdownV2_idempotent:
  "escapeMarkdownV2 (escapeMarkdownV2 s) = escapeMarkdownV2 s
   \<and> escapeMarkdownV2 (xs @ backslash # c # ys)
       = escapeMarkdownV2 (xs @ [backslash]) @ c # escape_from (c = backslash) ys
   \<and> filter (\<lambda>c. c \<noteq> backslash) (escapeMarkdownV2 s) = filter (\<lambda>c. c \<noteq> backslash) s
   \<and> subseq s (escapeMarkdownV2 s)
   \<and> escapeMarkdownV2 s =
       concat (map (\<lambda>i. if s ! i \<in> set ''_*[]()~`>#+-=|{}.!''
                            \<and> \<not> (0 < i \<and> s ! (i - 1) = backslash)
                         then [backslash, s ! i] else [s ! i]) [0..<length s])"
proof -
  have a: "escapeMarkdownV2 (escapeMarkdownV2 s) = escapeMarkdownV2 s"
    by (simp add: escapeMarkdownV2_def escape_from_idem)
  have b: "escapeMarkdownV2 (xs @ backslash # c # ys)
       = escapeMarkdownV2 (xs @ [backslash]) @ c # escape_from (c = backslash) ys"
    by (simp add: escapeMarkdownV2_def escape_from_append)
  have c: "filter (\<lambda>c. c \<noteq> backslash) (escapeMarkdownV2 s) = filter (\<lambda>c. c \<noteq> backslash) s"
    by (simp add: escapeMarkdownV2_def escape_from_filter)
  have d: "subseq s (escapeMarkdownV2 s)"
    by (simp add: escapeMarkdownV2_def escape_from_subseq)
  have "(\<lambda>i. if s ! i \<in> set charsToEscape
                  \<and> \<not> (if i = 0 then False else s ! (i - 1) = backslash)
               then [backslash, s ! i] else [s ! i])
      = (\<lambda>i. if s ! i \<in> set ''_*[]()~`>#+-=|{}.!''
                  \<and> \<not> (0 < i \<and> s ! (i - 1) = backslash)
               then [backslash, s ! i] else [s ! i])"
    by (rule ext) (simp add: charsToEscape_def)
  then have e: "escapeMarkdownV2 s =
       concat (map (\<lambda>i. if s ! i \<in> set ''_*[]()~`>#+-=|{}.!''
                            \<and> \<not> (0 < i \<and> s ! (i - 1) = backslash)
                         then [backslash, s ! i] else [s ! i]) [0..<length s])"
    unfolding escapeMarkdownV2_def escape_from_positions [of False s] by (rule arg_cong)
  show ?thesis by (intro conjI a b c d e)
qed

subsection \<open>Chunker: the queue\<close>

lemma split_loop_length: "length (split_loop cur s) = Suc (count_markers s)"
  by (induction cur s rule: split_loop.induct) auto

lemma loop_body_queue: "snd (snd (loop_body (chunks, builder, q) t)) = tl q"
  by (auto simp: loop_body_def Let_def split: list.splits prod.splits)

lemma chunk_loop_queue: "snd (snd (chunk_loop ts s)) = drop (length ts) (snd (snd s))"
proof (induction ts arbitrary: s)
  case Nil
  then show ?case by simp
next
  case (Cons t ts)
  obtain chunks builder q where s: "s = (chunks, builder, q)" by (cases s) auto
  show ?case using Cons [of "loop_body s t"] loop_body_queue [of chunks builder q t]
    by (simp add: s drop_Suc)
qed

lemma build_chunks_queue: "snd (build_chunks text q) = drop (Suc (count_markers text)) q"
  using chunk_loop_queue [of "split_linkReplacer text" "([], [], q)"]
  by (auto simp: build_chunks_def split_linkReplacer_def split_loop_length split: prod.splits)

subsection \<open>Markers in a text\<close>

lemma linkReplacer_at_hd: "linkReplacer_at (c # cs) \<Longrightarrow> c = CHR ''#''"
  by (auto simp: linkReplacer_at_def marker_def numeral_eq_Suc)

lemma linkReplacer_at_snd: "linkReplacer_at (a # b # cs) \<Longrightarrow> b = CHR ''#''"
  by (auto simp: linkReplacer_at_def marker_def numeral_eq_Suc)

lemma linkReplacer_at_marker: "linkReplacer_at (marker @ s)"
  by (simp add: linkReplacer_at_def marker_def)

lemma linkReplacer_at_hash_marker: "linkReplacer_at (CHR ''#'' # marker @ s)"
proof -
  have "CHR ''#'' # marker = marker @ [CHR ''#'']"
    unfolding marker_def by (simp only: replicate_append_same)
  then have "CHR ''#'' # marker @ s = marker @ (CHR ''#'' # s)"
    by (metis append_Cons append_Nil append_assoc)
  then show ?thesis using linkReplacer_at_marker [of "CHR ''#'' # s"] by metis
qed

lemma marker_Cons: "marker = CHR ''#'' # replicate 14 (CHR ''#'')"
  by (simp add: marker_def numeral_eq_Suc)

lemma count_markers_marker: "count_markers (marker @ s) = Suc (count_markers s)"
  using linkReplacer_at_marker [of s] by (simp add: marker_Cons)

lemma count_markers_hash_marker:
  "count_markers (CHR ''#'' # marker @ s) = Suc (count_markers (CHR ''#'' # s))"
proof -
  have "drop 14 (marker @ s) = CHR ''#'' # s"
    by (simp add: marker_def)
  then show ?thesis using linkReplacer_at_hash_marker [of s] by simp
qed

lemma guarded_from_weaken: "guarded_from False g \<Longrightarrow> guarded_from p g"
  by (cases g) auto

lemma guarded_from_append:
  "guarded_from p g \<Longrightarrow> guarded_from False g' \<Longrightarrow> guarded_from p (g @ g')"
  by (induction g arbitrary: p) (auto intro: guarded_from_weaken)

lemma guarded_escape_from: "guarded_from p (escape_from p s)"
  by (induction s arbitrary: p) (auto simp: charsToEscape_def backslash_def)

lemma guarded_hash_free: "CHR ''#'' \<notin> set s \<Longrightarrow> guarded_from p s"
  by (induction s arbitrary: p) auto

lemma count_markers_guarded:
  "guarded_from p g \<Longrightarrow> count_markers s = n \<Longrightarrow> count_markers (CHR ''#'' # s) = n
     \<Longrightarrow> count_markers (g @ s) = n"
proof (induction g arbitrary: p)
  case Nil
  then show ?case by simp
next
  case (Cons c g)
  show ?case
  proof (cases "c = CHR ''#''")
    case False
    then have "\<not> linkReplacer_at (c # g @ s)" using linkReplacer_at_hd by blast
    moreover have "count_markers (g @ s) = n"
      using Cons.IH [of "c = backslash"] Cons.prems by simp
    ultimately show ?thesis by simp
  next
    case True
    then have g: "guarded_from False g" using Cons.prems(1) by (simp add: backslash_def)
    show ?thesis
    proof (cases g)
      case Nil
      then show ?thesis using True Cons.prems by simp
    next
      case (Cons d g')
      then have "d \<noteq> CHR ''#''" using g by auto
      then have "\<not> linkReplacer_at (c # g @ s)"
        using linkReplacer_at_snd [of c d "g' @ s"] Cons by auto
      moreover have "count_markers (g @ s) = n"
        using Cons.IH [OF g] Cons.prems by simp
      ultimately show ?thesis by simp
    qed
  qed
qed

lemma marked_count:
  "marked s n \<Longrightarrow> count_markers s = n \<and> count_markers (CHR ''#'' # s) = n"
proof (induction rule: marked.induct)
  case marked_Nil
  have "\<not> linkReplacer_at [CHR ''#'']"
    by (simp add: linkReplacer_at_def marker_def numeral_eq_Suc)
  then show ?case by simp
next
  case (marked_text g s n)
  have "count_markers (g @ s) = n"
    using count_markers_guarded [OF marked_text.hyps(1)] marked_text.IH by blast
  moreover have "guarded_from True (CHR ''#'' # g)"
    using marked_text.hyps(1) by (simp add: backslash_def)
  then have "count_markers ((CHR ''#'' # g) @ s) = n"
    using count_markers_guarded marked_text.IH by blast
  ultimately show ?case by simp
next
  case (marked_marker s n)
  have "count_markers (marker @ s) = Suc n"
    using marked_marker.IH by (simp only: count_markers_marker)
  moreover have "count_markers (CHR ''#'' # marker @ s) = Suc n"
    using marked_marker.IH by (simp only: count_markers_hash_marker)
  ultimately show ?case by blast
qed

lemma marked_append: "marked s n \<Longrightarrow> marked t m \<Longrightarrow> marked (s @ t) (n + m)"
proof (induction rule: marked.induct)
  case marked_Nil
  then show ?case by simp
next
  case (marked_text g s n)
  then show ?case using marked.marked_text [of g "s @ t" "n + m"] by simp
next
  case (marked_marker s n)
  then show ?case using marked.marked_marker [of "s @ t" "n + m"] by simp
qed

lemma marked_guarded: "guarded_from False g \<Longrightarrow> marked g 0"
  using marked.marked_text [OF _ marked.marked_Nil, of g] by simp

lemma marked_one: "marked marker (Suc 0)"
  using marked.marked_marker [OF marked.marked_Nil] by simp

lemma marked_escaped_chunks:
  "marked (concat (map (\<lambda>t. escapeMarkdownV2 (decode t)) chunks)) 0"
proof (induction chunks)
  case Nil
  then show ?case by (simp add: marked.marked_Nil)
next
  case (Cons c chunks)
  have "guarded_from False (escapeMarkdownV2 (decode c))"
    by (simp add: escapeMarkdownV2_def guarded_escape_from)
  then show ?case using marked.marked_text Cons by simp
qed

subsection \<open>The handlers\<close>

lemma toLowerCase_a: "toLowerCase ''a'' = ''a''"
  by code_simp

lemma toLowerCase_img: "toLowerCase ''img'' = ''img''"
  by code_simp

lemma element_a:
  "ElementHandler_element h ''a'' attrs =
     (h\<lparr>tag := ''a'', herf := getAttribute attrs ''href'', nestedInA := True\<rparr>,
      RemoveAndKeepContent, True)"
  by (simp add: ElementHandler_element_def toLowerCase_a removed_tags_def media_tags_def)

lemma element_img:
  "ElementHandler_element h ''img'' attrs =
     (h\<lparr>tag := ''img'', src := getAttribute attrs ''src''\<rparr>, RemoveAndKeepContent, False)"
  by (simp add: ElementHandler_element_def toLowerCase_img removed_tags_def media_tags_def)

lemma toLowerCase_p: "toLowerCase ''p'' = ''p''"
  by code_simp

lemma element_p:
  "ElementHandler_element h ''p'' attrs = (h\<lparr>tag := ''p''\<rparr>, RemoveAndKeepContent, False)"
  by (simp add: ElementHandler_element_def toLowerCase_p removed_tags_def media_tags_def)

lemma marker_literal: "marker = ''###############''"
  by code_simp

lemma element_linksList: "linksList (fst (ElementHandler_element h tagName attrs)) = linksList h"
  by (simp add: ElementHandler_element_def Let_def)

lemma onEndTag_linksList: "linksList (onEndTag r h) = linksList h"
  by (simp add: onEndTag_def)

lemma element_action:
  "fst (snd (ElementHandler_element h tagName attrs)) =
     (if toLowerCase tagName \<in> set removed_tags then Remove
      else if toLowerCase tagName \<in> set [''br''] then Untouched else RemoveAndKeepContent)"
  by (simp add: ElementHandler_element_def Let_def)

lemma cleanup_Nil: "cleanup [] = []"
  by (simp add: cleanup_def strip_invisible_def)

text \<open>
  C5. On \<open><a href="X"><img src="Y"></a>\<close> the handlers push no descriptor at all and
  write nothing: no text callback occurs, and a descriptor is only pushed from one.
\<close>

theorem anchor_around_media_pushes_nothing:
  "processHtml cb decode []
     [Element ''a'' [(''href'', X)] rawStart rawEnd
        [Element ''img'' [(''src'', Y)] rawStart' rawEnd' []]] = ([], [])"
  by (simp add: processHtml_def element_a element_img new_ElementHandler_def onEndTag_def
      cleanup_Nil)

lemma text_chunks_plain_anchor:
  "tag h = ''a'' \<Longrightarrow> \<not> truthy (herf h) \<Longrightarrow>
     text_chunks decode True h chunks =
       (h, concat (map (\<lambda>t. escapeMarkdownV2 (decode t)) chunks))"
  by (induction chunks) (simp_all add: ElementHandler_text_def media_tags_def inline_tags_def)

lemma nodes_plain_anchor:
  "tag h = ''a'' \<Longrightarrow> \<not> truthy (herf h) \<Longrightarrow> list_all text_or_comment kids \<Longrightarrow>
     transform_nodes cb decode True True h kids =
       (h, concat (map (\<lambda>t. escapeMarkdownV2 (decode t)) (concat (map own_chunks kids))))"
proof (induction kids)
  case Nil
  then show ?case by simp
next
  case (Cons k kids)
  then show ?case by (cases k) (simp_all add: text_chunks_plain_anchor)
qed

text \<open>
  An anchor whose \<open>href\<close> is missing or empty, with text nodes and comments only below
  it: nothing is pushed, the output is the escaped text of the chunks, with nothing
  added, and it holds no marker.
\<close>

lemma anchor_with_text_only:
  assumes "getAttribute attrs ''href'' = None \<or> getAttribute attrs ''href'' = Some []"
    and "list_all text_or_comment kids"
  shows "transform_node cb decode True inside h (Element ''a'' attrs rawStart rawEnd kids)
           = (h\<lparr>tag := ''a'', herf := getAttribute attrs ''href'', nestedInA := False\<rparr>,
              concat (map (\<lambda>t. escapeMarkdownV2 (decode t)) (concat (map own_chunks kids))))
         \<and> count_markers
              (concat (map (\<lambda>t. escapeMarkdownV2 (decode t)) (concat (map own_chunks kids))))
             = 0"
proof -
  let ?h1 = "h\<lparr>tag := ''a'', herf := getAttribute attrs ''href'', nestedInA := True\<rparr>"
  let ?out = "concat (map (\<lambda>t. escapeMarkdownV2 (decode t)) (concat (map own_chunks kids)))"
  have "\<not> truthy (herf ?h1)" using assms(1) by (auto simp: truthy_def)
  then have "transform_nodes cb decode True True ?h1 kids = (?h1, ?out)"
    using assms(2) by (simp add: nodes_plain_anchor)
  then have "transform_node cb decode True inside h (Element ''a'' attrs rawStart rawEnd kids)
           = (h\<lparr>tag := ''a'', herf := getAttribute attrs ''href'', nestedInA := False\<rparr>, ?out)"
    by (simp add: element_a onEndTag_def)
  moreover have "count_markers ?out = 0"
    using marked_count [OF marked_escaped_chunks] by blast
  ultimately show ?thesis by blast
qed

lemma anchor_with_text_only_example:
  "(getAttribute [(''class'', ''x'')] ''href'' = None
      \<or> getAttribute [(''class'', ''x'')] ''href'' = Some [])
   \<and> list_all text_or_comment [TextNode [''a.b'', ''''], CommentNode ''c'', TextNode [''d'']]
   \<and> transform_node True id True False (new_ElementHandler [\<lparr>desc = ''q'', link = ''v''\<rparr>])
        (Element ''a'' [(''class'', ''x'')] ''<a class=x>'' ''</a>''
           [TextNode [''a.b'', ''''], CommentNode ''c'', TextNode [''d'']])
      = ((new_ElementHandler [\<lparr>desc = ''q'', link = ''v''\<rparr>])
            \<lparr>tag := ''a'', herf := None, nestedInA := False\<rparr>,
         ''a'' @ [backslash] @ ''.bd'')"
proof -
  have h: "getAttribute [(''class'', ''x'')] ''href'' = None
      \<or> getAttribute [(''class'', ''x'')] ''href'' = Some []"
    by (simp add: getAttribute_def)
  have k: "list_all text_or_comment [TextNode [''a.b'', ''''], CommentNode ''c'', TextNode [''d'']]"
    by simp
  have e: "concat (map (\<lambda>t. escapeMarkdownV2 (id t))
             (concat (map own_chunks [TextNode [''a.b'', ''''], CommentNode ''c'', TextNode [''d'']])))
           = ''a'' @ [backslash] @ ''.bd''"
    by (simp add: escapeMarkdownV2_def charsToEscape_def backslash_def)
  have g: "getAttribute [(''class'', ''x'')] ''href'' = None"
    by (simp add: getAttribute_def)
  note t = anchor_with_text_only [OF h k, of True id False
      "new_ElementHandler [\<lparr>desc = ''q'', link = ''v''\<rparr>]" "''<a class=x>''" "''</a>''",
      THEN conjunct1]
  show ?thesis
    by (intro conjI h k) (use t in \<open>simp only: e g\<close>)
qed

lemma text_unlinked:
  "nestedInA h \<Longrightarrow> \<not> truthy (herf h) \<Longrightarrow> fst (ElementHandler_text decode h t lst) = h"
  by (simp add: ElementHandler_text_def Let_def)

lemma text_chunks_unlinked:
  "nestedInA h \<Longrightarrow> \<not> truthy (herf h) \<Longrightarrow> fst (text_chunks decode emit h chunks) = h"
proof (induction chunks)
  case Nil
  then show ?case by simp
next
  case (Cons c chunks)
  then show ?case
    using text_unlinked [of h decode c "chunks = []"]
    by (cases "ElementHandler_text decode h c (chunks = [])") (simp add: case_prod_beta)
qed

lemma element_unlinked:
  "tagName \<noteq> ''a'' \<Longrightarrow>
     nestedInA (fst (ElementHandler_element h tagName attrs)) = nestedInA h
     \<and> herf (fst (ElementHandler_element h tagName attrs)) = herf h
     \<and> linksList (fst (ElementHandler_element h tagName attrs)) = linksList h
     \<and> \<not> snd (snd (ElementHandler_element h tagName attrs))"
  by (simp add: ElementHandler_element_def Let_def)

lemma unlinked_run:
  "nestedInA h \<longrightarrow> \<not> truthy (herf h) \<longrightarrow> no_anchor n \<longrightarrow>
     nestedInA (fst (transform_node cb decode emit inside h n))
     \<and> herf (fst (transform_node cb decode emit inside h n)) = herf h
     \<and> linksList (fst (transform_node cb decode emit inside h n)) = linksList h"
  "nestedInA h \<longrightarrow> \<not> truthy (herf h) \<longrightarrow> list_all no_anchor ns \<longrightarrow>
     nestedInA (fst (transform_nodes cb decode emit inside h ns))
     \<and> herf (fst (transform_nodes cb decode emit inside h ns)) = herf h
     \<and> linksList (fst (transform_nodes cb decode emit inside h ns)) = linksList h"
proof (induction cb decode emit inside h n and cb decode emit inside h ns
    rule: transform_node_transform_nodes.induct)
  case (1 cb decode emit inside h tagName attrs rawStart rawEnd kids)
  let ?n = "Element tagName attrs rawStart rawEnd kids"
  show ?case
  proof (intro impI)
    assume i: "nestedInA h" and u: "\<not> truthy (herf h)" and na: "no_anchor ?n"
    obtain h1 act reg where e: "ElementHandler_element h tagName attrs = (h1, act, reg)"
      by (cases "ElementHandler_element h tagName attrs") auto
    have t: "tagName \<noteq> ''a''" and k: "list_all no_anchor kids" using na by simp_all
    have h1: "nestedInA h1" "herf h1 = herf h" "linksList h1 = linksList h" "\<not> reg"
      using element_unlinked [OF t, of h attrs] e i by simp_all
    have u1: "\<not> truthy (herf h1)" using u h1(2) by simp
    show "nestedInA (fst (transform_node cb decode emit inside h ?n))
        \<and> herf (fst (transform_node cb decode emit inside h ?n)) = herf h
        \<and> linksList (fst (transform_node cb decode emit inside h ?n)) = linksList h"
    proof (cases act)
      case Remove
      show ?thesis
      proof (cases cb)
        case True
        have "nestedInA (fst (transform_nodes cb decode False True h1 kids))
            \<and> herf (fst (transform_nodes cb decode False True h1 kids)) = herf h1
            \<and> linksList (fst (transform_nodes cb decode False True h1 kids)) = linksList h1"
          using "1.IH"(1) [OF e [symmetric] refl Remove True] h1(1) u1 k by blast
        then show ?thesis using Remove True e h1 by simp
      next
        case False
        then show ?thesis using Remove e h1 by simp
      qed
    next
      case Untouched
      have "nestedInA (fst (transform_nodes cb decode emit True h1 kids))
          \<and> herf (fst (transform_nodes cb decode emit True h1 kids)) = herf h1
          \<and> linksList (fst (transform_nodes cb decode emit True h1 kids)) = linksList h1"
        using "1.IH"(2) [OF e [symmetric] refl Untouched] h1(1) u1 k by blast
      then show ?thesis using Untouched e h1 by (simp add: case_prod_beta)
    next
      case RemoveAndKeepContent
      have "nestedInA (fst (transform_nodes cb decode emit True h1 kids))
          \<and> herf (fst (transform_nodes cb decode emit True h1 kids)) = herf h1
          \<and> linksList (fst (transform_nodes cb decode emit True h1 kids)) = linksList h1"
        using "1.IH"(3) [OF e [symmetric] refl RemoveAndKeepContent] h1(1) u1 k by blast
      then show ?thesis using RemoveAndKeepContent e h1
        by (simp add: case_prod_beta onEndTag_def)
    qed
  qed
next
  case (2 cb decode emit inside h chunks)
  show ?case using text_chunks_unlinked [of h decode emit chunks] by simp
next
  case (3 cb decode emit inside h c)
  show ?case by simp
next
  case (4 cb decode emit inside h raw)
  show ?case by simp
next
  case (5 cb decode emit inside h)
  show ?case by simp
next
  case (6 cb decode emit inside h n ns)
  show ?case
  proof (intro impI)
    assume i: "nestedInA h" and u: "\<not> truthy (herf h)" and na: "list_all no_anchor (n # ns)"
    obtain h1 o1 where r: "transform_node cb decode emit inside h n = (h1, o1)"
      by (cases "transform_node cb decode emit inside h n") auto
    have h1: "nestedInA h1" "herf h1 = herf h" "linksList h1 = linksList h"
      using "6.IH"(1) i u na r by simp_all
    have u1: "\<not> truthy (herf h1)" using u h1(2) by simp
    have "nestedInA (fst (transform_nodes cb decode emit inside h1 ns))
        \<and> herf (fst (transform_nodes cb decode emit inside h1 ns)) = herf h1
        \<and> linksList (fst (transform_nodes cb decode emit inside h1 ns)) = linksList h1"
      using "6.IH"(2) [OF r [symmetric]] h1(1) u1 na by simp
    then show "nestedInA (fst (transform_nodes cb decode emit inside h (n # ns)))
        \<and> herf (fst (transform_nodes cb decode emit inside h (n # ns))) = herf h
        \<and> linksList (fst (transform_nodes cb decode emit inside h (n # ns))) = linksList h"
      using r h1 by (simp add: case_prod_beta)
  qed
qed

text \<open>
  An anchor whose \<open>href\<close> is missing or empty and that has no other anchor below it,
  whatever else stands below it: nothing is pushed, from any state of the handlers.
\<close>

lemma anchor_without_nested_anchor_pushes_nothing:
  assumes "getAttribute attrs ''href'' = None \<or> getAttribute attrs ''href'' = Some []"
    and "list_all no_anchor kids"
  shows "linksList (fst (transform_node cb decode emit inside h
                           (Element ''a'' attrs rawStart rawEnd kids))) = linksList h"
proof -
  let ?h1 = "h\<lparr>tag := ''a'', herf := getAttribute attrs ''href'', nestedInA := True\<rparr>"
  have "\<not> truthy (herf ?h1)" using assms(1) by (auto simp: truthy_def)
  then have "linksList (fst (transform_nodes cb decode emit True ?h1 kids)) = linksList ?h1"
    using unlinked_run(2) [of ?h1 kids cb decode emit True] assms(2) by simp
  then show ?thesis by (simp add: element_a case_prod_beta onEndTag_def)
qed

lemma cleanup_text_and_marker: "cleanup ''c.p###############'' = ''c.p###############''"
  by code_simp

text \<open>
  C6. On \<open><a><a></a><img src=Y>c.p</a>\<close>, an anchor without \<open>href\<close>, the text of the
  anchor is written as it is, not escaped, followed by a marker, and a descriptor for
  the image is pushed: the end tag of the inner anchor has reset \<open>nestedInA\<close>, so the text
  takes the media branch as if it stood outside every anchor.
\<close>

theorem anchor_without_href_pushes_media_link:
  "processHtml cb decode []
     [Element ''a'' [] ''<a>'' ''</a>''
        [Element ''a'' [] ''<a>'' ''</a>'' [],
         Element ''img'' [(''src'', ''Y'')] ''<img src=Y>'' [] [],
         TextNode [''c.p'', '''']]]
   = (''c.p###############'', [\<lparr>desc = ''img'', link = ''Y''\<rparr>])"
proof -
  let ?d = "[Element ''a'' [] ''<a>'' ''</a>''
        [Element ''a'' [] ''<a>'' ''</a>'' [],
         Element ''img'' [(''src'', ''Y'')] ''<img src=Y>'' [] [],
         TextNode [''c.p'', '''']]]"
  have "snd (transform_nodes cb decode True False (new_ElementHandler []) ?d)
      = ''c.p###############''"
    by (simp add: element_a element_img new_ElementHandler_def onEndTag_def
        ElementHandler_text_def getAttribute_def truthy_def string_of_def media_tags_def
        marker_literal)
  moreover have "linksList (fst (transform_nodes cb decode True False (new_ElementHandler []) ?d))
      = [\<lparr>desc = ''img'', link = ''Y''\<rparr>]"
    by (simp add: element_a element_img new_ElementHandler_def onEndTag_def
        ElementHandler_text_def getAttribute_def truthy_def string_of_def media_tags_def
        marker_literal)
  ultimately show ?thesis
    by (simp add: processHtml_def case_prod_beta cleanup_text_and_marker)
qed

subsection \<open>Documents without text nodes\<close>

lemma no_text_linksList:
  "(no_text n \<longrightarrow> linksList (fst (transform_node cb decode emit inside h n)) = linksList h)"
  "(list_all no_text ns \<longrightarrow> linksList (fst (transform_nodes cb decode emit inside h ns)) = linksList h)"
proof (induction cb decode emit inside h n and cb decode emit inside h ns
    rule: transform_node_transform_nodes.induct)
  case (1 cb decode emit inside h tagName attrs rawStart rawEnd kids)
  obtain h1 act reg where e: "ElementHandler_element h tagName attrs = (h1, act, reg)"
    by (cases "ElementHandler_element h tagName attrs") auto
  have l: "linksList h1 = linksList h" using element_linksList [of h tagName attrs] e by simp
  show ?case
  proof (cases act)
    case Remove
    then show ?thesis using "1.IH" e l
      by (auto split: prod.splits)
  next
    case Untouched
    then show ?thesis using "1.IH" e l
      by (auto split: prod.splits)
  next
    case RemoveAndKeepContent
    then show ?thesis using "1.IH" e l
      by (auto split: prod.splits simp: onEndTag_linksList)
  qed
next
  case (6 cb decode emit inside h n ns)
  then show ?case by (auto split: prod.splits)
qed simp_all

lemma element_snd:
  "snd (ElementHandler_element h tagName attrs) = snd (ElementHandler_element h' tagName attrs)"
  by (simp add: ElementHandler_element_def Let_def)

lemma no_text_output:
  "(no_text n \<longrightarrow> (\<forall>h'. snd (transform_node cb decode emit inside h n)
                          = snd (transform_node cb decode emit inside h' n)))"
  "(list_all no_text ns \<longrightarrow> (\<forall>h'. snd (transform_nodes cb decode emit inside h ns)
                                   = snd (transform_nodes cb decode emit inside h' ns)))"
proof (induction cb decode emit inside h n and cb decode emit inside h ns
    rule: transform_node_transform_nodes.induct)
  case (1 cb decode emit inside h tagName attrs rawStart rawEnd kids)
  show ?case
  proof (intro impI allI)
    fix h'
    assume nt: "no_text (Element tagName attrs rawStart rawEnd kids)"
    then have nk: "list_all no_text kids" by simp
    obtain h1 act reg where e: "ElementHandler_element h tagName attrs = (h1, act, reg)"
      by (cases "ElementHandler_element h tagName attrs") auto
    obtain h1' act' reg' where e0: "ElementHandler_element h' tagName attrs = (h1', act', reg')"
      by (cases "ElementHandler_element h' tagName attrs") auto
    have "(act', reg') = (act, reg)"
      using element_snd [of h tagName attrs h'] by (simp only: e e0 snd_conv)
    then have e': "ElementHandler_element h' tagName attrs = (h1', act, reg)"
      using e0 by simp
    show "snd (transform_node cb decode emit inside h (Element tagName attrs rawStart rawEnd kids))
        = snd (transform_node cb decode emit inside h' (Element tagName attrs rawStart rawEnd kids))"
    proof (cases act)
      case Remove
      then show ?thesis using e e' by simp
    next
      case Untouched
      then have "snd (transform_nodes cb decode emit True h1 kids)
          = snd (transform_nodes cb decode emit True h1' kids)"
        using "1.IH"(2) [OF e [symmetric] refl Untouched] nk by blast
      then show ?thesis using Untouched e e' by (simp add: case_prod_beta)
    next
      case RemoveAndKeepContent
      then have "snd (transform_nodes cb decode emit True h1 kids)
          = snd (transform_nodes cb decode emit True h1' kids)"
        using "1.IH"(3) [OF e [symmetric] refl RemoveAndKeepContent] nk by blast
      then show ?thesis using RemoveAndKeepContent e e' by (simp add: case_prod_beta)
    qed
  qed
next
  case (6 cb decode emit inside h n ns)
  show ?case
  proof (intro impI allI)
    fix h'
    assume nt: "list_all no_text (n # ns)"
    obtain h1 o1 where r: "transform_node cb decode emit inside h n = (h1, o1)"
      by (cases "transform_node cb decode emit inside h n") auto
    obtain h1' o1' where r': "transform_node cb decode emit inside h' n = (h1', o1')"
      by (cases "transform_node cb decode emit inside h' n") auto
    have n1: "no_text n" and n2: "list_all no_text ns" using nt by simp_all
    have "snd (transform_node cb decode emit inside h n) = snd (transform_node cb decode emit inside h' n)"
      using "6.IH"(1) n1 by blast
    then have "o1 = o1'" by (simp only: r r' snd_conv)
    moreover have "snd (transform_nodes cb decode emit inside h1 ns)
        = snd (transform_nodes cb decode emit inside h1' ns)"
      using "6.IH"(2) [OF r [symmetric]] n2 by blast
    ultimately show "snd (transform_nodes cb decode emit inside h (n # ns))
        = snd (transform_nodes cb decode emit inside h' (n # ns))"
      using r r' by (simp add: case_prod_beta)
  qed
qed simp_all

lemma no_text_inside:
  "(no_text n \<longrightarrow> transform_node cb decode emit inside h n
                   = transform_node cb decode emit True h n)"
  "(list_all no_text ns \<longrightarrow> transform_nodes cb decode emit inside h ns
                            = transform_nodes cb decode emit True h ns)"
proof (induction cb decode emit inside h n and cb decode emit inside h ns
    rule: transform_node_transform_nodes.induct)
  case (6 cb decode emit inside h n ns)
  show ?case
  proof (intro impI)
    assume nt: "list_all no_text (n # ns)"
    obtain h1 o1 where r: "transform_node cb decode emit inside h n = (h1, o1)"
      by (cases "transform_node cb decode emit inside h n") auto
    have n1: "no_text n" and n2: "list_all no_text ns" using nt by simp_all
    have r': "transform_node cb decode emit True h n = (h1, o1)"
      using "6.IH"(1) n1 r by simp
    have "transform_nodes cb decode emit inside h1 ns = transform_nodes cb decode emit True h1 ns"
      using "6.IH"(2) [OF r [symmetric]] n2 by blast
    then show "transform_nodes cb decode emit inside h (n # ns)
        = transform_nodes cb decode emit True h (n # ns)"
      using r r' by simp
  qed
qed simp_all

lemma transform_nodes_append:
  "transform_nodes cb decode emit inside h (xs @ ys) =
     (case transform_nodes cb decode emit inside h xs of (h1, o1) \<Rightarrow>
        (case transform_nodes cb decode emit inside h1 ys of (h2, o2) \<Rightarrow> (h2, o1 @ o2)))"
  by (induction xs arbitrary: h) (auto split: prod.splits)

lemma media_not_removed:
  "t \<in> set media_tags \<Longrightarrow> t \<notin> set removed_tags \<and> t \<notin> set [''br'']"
  by (auto simp: media_tags_def removed_tags_def)

text \<open>
  C10. A media element with no text node below it and none after it: no descriptor is
  pushed, and the output is that of its children and of what follows, as if the element
  were not there; the text handler is never called, so no marker is written.
\<close>

theorem media_without_later_text:
  assumes "toLowerCase tagName \<in> set media_tags"
    and "list_all no_text kids" and "list_all no_text rest"
  shows "linksList (fst (transform_nodes cb decode emit inside h
                           (Element tagName attrs rawStart rawEnd kids # rest))) = linksList h
         \<and> snd (transform_nodes cb decode emit inside h
                  (Element tagName attrs rawStart rawEnd kids # rest))
             = snd (transform_nodes cb decode emit inside h (kids @ rest))"
proof -
  let ?e = "Element tagName attrs rawStart rawEnd kids"
  have nt: "list_all no_text (?e # rest)" using assms by simp
  have 1: "linksList (fst (transform_nodes cb decode emit inside h (?e # rest))) = linksList h"
    using no_text_linksList(2) [of "?e # rest" cb decode emit inside h] nt by blast
  obtain h1 act reg where e: "ElementHandler_element h tagName attrs = (h1, act, reg)"
    by (cases "ElementHandler_element h tagName attrs") auto
  have act: "act = RemoveAndKeepContent"
    using element_action [of h tagName attrs] e media_not_removed [OF assms(1)] by simp
  obtain h2 o2 where k: "transform_nodes cb decode emit True h1 kids = (h2, o2)"
    by (cases "transform_nodes cb decode emit True h1 kids") auto
  obtain h2' o2' where k': "transform_nodes cb decode emit inside h kids = (h2', o2')"
    by (cases "transform_nodes cb decode emit inside h kids") auto
  have "transform_nodes cb decode emit True h kids = (h2', o2')"
    using no_text_inside(2) [of kids cb decode emit inside h] assms(2) k' by simp
  then have o: "o2 = o2'"
    using no_text_output(2) [of kids cb decode emit True h1] assms(2) k by (metis snd_conv)
  have r: "snd (transform_nodes cb decode emit inside (onEndTag reg h2) rest)
      = snd (transform_nodes cb decode emit inside h2' rest)"
    using no_text_output(2) [of rest cb decode emit inside "onEndTag reg h2"] assms(3) by blast
  have "snd (transform_nodes cb decode emit inside h (?e # rest))
      = o2 @ snd (transform_nodes cb decode emit inside (onEndTag reg h2) rest)"
    using e act k by (simp add: case_prod_beta)
  moreover have "snd (transform_nodes cb decode emit inside h (kids @ rest))
      = o2' @ snd (transform_nodes cb decode emit inside h2' rest)"
    using k' by (simp add: transform_nodes_append case_prod_beta)
  ultimately show ?thesis using 1 o r by simp
qed

theorem media_without_later_text_witness:
  "toLowerCase ''img'' \<in> set media_tags \<and> list_all no_text []
   \<and> list_all no_text [Element ''br'' [] ''<br>'' [] []]
   \<and> linksList (fst (transform_nodes True id True False (new_ElementHandler [])
         (Element ''img'' [(''src'', ''Y'')] ''<img src=Y>'' [] []
            # [Element ''br'' [] ''<br>'' [] []]))) = []
   \<and> snd (transform_nodes True id True False (new_ElementHandler [])
         (Element ''img'' [(''src'', ''Y'')] ''<img src=Y>'' [] []
            # [Element ''br'' [] ''<br>'' [] []])) = ''<br>''"
proof -
  have a: "toLowerCase ''img'' \<in> set media_tags"
    by (simp add: toLowerCase_img media_tags_def)
  have b: "list_all no_text []" by simp
  have c: "list_all no_text [Element ''br'' [] ''<br>'' [] []]" by simp
  have l: "linksList (new_ElementHandler []) = []" by (simp add: new_ElementHandler_def)
  have br: "toLowerCase ''br'' = ''br''" by code_simp
  have d: "snd (transform_nodes True id True False (new_ElementHandler [])
              ([] @ [Element ''br'' [] ''<br>'' [] []])) = ''<br>''"
    by (simp add: ElementHandler_element_def br removed_tags_def)
  show ?thesis
    using media_without_later_text [OF a b c, of True id True False "new_ElementHandler []"
        "[(''src'', ''Y'')]" "''<img src=Y>''" "[]"] a b c
    unfolding l d by blast
qed

subsection \<open>Removed content\<close>

lemma text_control:
  "control h = control h' \<Longrightarrow>
     control (fst (ElementHandler_text decode h t lst))
       = control (fst (ElementHandler_text decode' h' t' lst))"
  by (auto simp: ElementHandler_text_def control_def Let_def)

lemma text_output:
  "control h = control h' \<Longrightarrow>
     snd (ElementHandler_text decode h t lst) = snd (ElementHandler_text decode h' t lst)"
  by (auto simp: ElementHandler_text_def control_def Let_def)

lemma element_control:
  "control h = control h' \<Longrightarrow>
     control (fst (ElementHandler_element h tagName attrs))
       = control (fst (ElementHandler_element h' tagName attrs))"
  by (auto simp: ElementHandler_element_def control_def Let_def)

lemma onEndTag_control:
  "control h = control h' \<Longrightarrow> control (onEndTag r h) = control (onEndTag r h')"
  by (auto simp: onEndTag_def control_def)

lemma text_chunks_control:
  "control h = control h' \<Longrightarrow>
     control (fst (text_chunks decode emit h cs))
       = control (fst (text_chunks decode' emit' h' (map f cs)))"
proof (induction cs arbitrary: h h')
  case Nil
  then show ?case by simp
next
  case (Cons c cs)
  have "control (fst (ElementHandler_text decode h c (cs = [])))
      = control (fst (ElementHandler_text decode' h' (f c) (cs = [])))"
    using Cons.prems by (rule text_control)
  from Cons.IH [OF this] show ?case by (simp add: case_prod_beta)
qed

lemma text_chunks_output:
  "control h = control h' \<Longrightarrow>
     snd (text_chunks decode emit h cs) = snd (text_chunks decode emit h' cs)"
proof (induction cs arbitrary: h h')
  case Nil
  then show ?case by simp
next
  case (Cons c cs)
  have "control (fst (ElementHandler_text decode h c (cs = [])))
      = control (fst (ElementHandler_text decode h' c (cs = [])))"
    using Cons.prems by (rule text_control)
  from Cons.IH [OF this] text_output [OF Cons.prems, of decode c "cs = []"]
  show ?case by (simp add: case_prod_beta)
qed

lemma text_chunks_silent: "snd (text_chunks decode False h cs) = []"
  by (induction cs arbitrary: h) (simp_all add: case_prod_beta)

lemma silent:
  "\<not> emit \<longrightarrow> snd (transform_node cb decode emit inside h n) = []"
  "\<not> emit \<longrightarrow> snd (transform_nodes cb decode emit inside h ns) = []"
proof (induction cb decode emit inside h n and cb decode emit inside h ns
    rule: transform_node_transform_nodes.induct)
  case (1 cb decode emit inside h tagName attrs rawStart rawEnd kids)
  obtain h1 act reg where e: "ElementHandler_element h tagName attrs = (h1, act, reg)"
    by (cases "ElementHandler_element h tagName attrs") auto
  show ?case
  proof (cases act)
    case Remove
    then show ?thesis using e by simp
  next
    case Untouched
    then show ?thesis using e by (simp add: case_prod_beta)
  next
    case RemoveAndKeepContent
    then show ?thesis
      using "1.IH"(3) [OF e [symmetric] refl RemoveAndKeepContent] e
      by (simp add: case_prod_beta)
  qed
next
  case (2 cb decode emit inside h chunks)
  then show ?case by (simp add: text_chunks_silent)
next
  case (6 cb decode emit inside h n ns)
  obtain h1 o1 where r: "transform_node cb decode emit inside h n = (h1, o1)"
    by (cases "transform_node cb decode emit inside h n") auto
  show ?case
  proof (cases emit)
    case True
    then show ?thesis by simp
  next
    case False
    then have "o1 = []" using "6.IH"(1) r by simp
    moreover have "snd (transform_nodes cb decode emit inside h1 ns) = []"
      using "6.IH"(2) [OF r [symmetric]] False by simp
    ultimately show ?thesis using r False by (simp add: case_prod_beta)
  qed
qed simp_all

lemma wipe_control:
  "\<forall>h' emit'. control h = control h' \<longrightarrow>
      control (fst (transform_node cb decode emit inside h n))
        = control (fst (transform_node cb decode emit' inside h' (wipe_text n)))"
  "\<forall>h' emit'. control h = control h' \<longrightarrow>
      control (fst (transform_nodes cb decode emit inside h ns))
        = control (fst (transform_nodes cb decode emit' inside h' (map wipe_text ns)))"
proof (induction cb decode emit inside h n and cb decode emit inside h ns
    rule: transform_node_transform_nodes.induct)
  case (1 cb decode emit inside h tagName attrs rawStart rawEnd kids)
  show ?case
  proof (intro allI impI)
    fix h' emit'
    assume c: "control h = control h'"
    obtain h1 act reg where e: "ElementHandler_element h tagName attrs = (h1, act, reg)"
      by (cases "ElementHandler_element h tagName attrs") auto
    obtain h1' act' reg' where e0: "ElementHandler_element h' tagName attrs = (h1', act', reg')"
      by (cases "ElementHandler_element h' tagName attrs") auto
    have "(act', reg') = (act, reg)"
      using element_snd [of h tagName attrs h'] by (simp only: e e0 snd_conv)
    then have e': "ElementHandler_element h' tagName attrs = (h1', act, reg)"
      using e0 by simp
    have c1: "control h1 = control h1'"
      using element_control [OF c, of tagName attrs] by (simp only: e e' fst_conv)
    show "control (fst (transform_node cb decode emit inside h
                          (Element tagName attrs rawStart rawEnd kids)))
        = control (fst (transform_node cb decode emit' inside h'
                          (wipe_text (Element tagName attrs rawStart rawEnd kids))))"
    proof (cases act)
      case Remove
      show ?thesis
      proof (cases cb)
        case True
        have "control (fst (transform_nodes cb decode False True h1 kids))
            = control (fst (transform_nodes cb decode False True h1' (map wipe_text kids)))"
          using "1.IH"(1) [OF e [symmetric] refl Remove True] c1 by blast
        then show ?thesis using Remove True e e' by simp
      next
        case False
        then show ?thesis using Remove e e' c1 by simp
      qed
    next
      case Untouched
      have "control (fst (transform_nodes cb decode emit True h1 kids))
          = control (fst (transform_nodes cb decode emit' True h1' (map wipe_text kids)))"
        using "1.IH"(2) [OF e [symmetric] refl Untouched] c1 by blast
      then show ?thesis using Untouched e e' by (simp add: case_prod_beta)
    next
      case RemoveAndKeepContent
      have "control (fst (transform_nodes cb decode emit True h1 kids))
          = control (fst (transform_nodes cb decode emit' True h1' (map wipe_text kids)))"
        using "1.IH"(3) [OF e [symmetric] refl RemoveAndKeepContent] c1 by blast
      then have "control (onEndTag reg (fst (transform_nodes cb decode emit True h1 kids)))
          = control (onEndTag reg (fst (transform_nodes cb decode emit' True h1' (map wipe_text kids))))"
        by (rule onEndTag_control)
      then show ?thesis using RemoveAndKeepContent e e'
        by (simp add: case_prod_beta)
    qed
  qed
next
  case (2 cb decode emit inside h chunks)
  show ?case using text_chunks_control [of h _ decode emit chunks decode _ "\<lambda>c. []"] by simp
next
  case (6 cb decode emit inside h n ns)
  show ?case
  proof (intro allI impI)
    fix h' emit'
    assume c: "control h = control h'"
    obtain h1 o1 where r: "transform_node cb decode emit inside h n = (h1, o1)"
      by (cases "transform_node cb decode emit inside h n") auto
    obtain h1' o1' where r': "transform_node cb decode emit' inside h' (wipe_text n) = (h1', o1')"
      by (cases "transform_node cb decode emit' inside h' (wipe_text n)") auto
    have "control (fst (transform_node cb decode emit inside h n))
        = control (fst (transform_node cb decode emit' inside h' (wipe_text n)))"
      using "6.IH"(1) c by blast
    then have c1: "control h1 = control h1'" by (simp only: r r' fst_conv)
    have "control (fst (transform_nodes cb decode emit inside h1 ns))
        = control (fst (transform_nodes cb decode emit' inside h1' (map wipe_text ns)))"
      using "6.IH"(2) [OF r [symmetric]] c1 by blast
    then show "control (fst (transform_nodes cb decode emit inside h (n # ns)))
        = control (fst (transform_nodes cb decode emit' inside h' (map wipe_text (n # ns))))"
      using r r' by (simp add: case_prod_beta)
  qed
qed simp_all


lemma style_script_removed:
  "t \<in> set [''style'', ''script''] \<Longrightarrow> t \<in> set removed_tags"
  by (auto simp: removed_tags_def)

lemma blank_same:
  "\<forall>h'. control h = control h' \<longrightarrow>
      snd (transform_node cb decode emit inside h n)
        = snd (transform_node cb decode emit inside h' (blank_style_script n))
      \<and> control (fst (transform_node cb decode emit inside h n))
        = control (fst (transform_node cb decode emit inside h' (blank_style_script n)))"
  "\<forall>h'. control h = control h' \<longrightarrow>
      snd (transform_nodes cb decode emit inside h ns)
        = snd (transform_nodes cb decode emit inside h' (map blank_style_script ns))
      \<and> control (fst (transform_nodes cb decode emit inside h ns))
        = control (fst (transform_nodes cb decode emit inside h' (map blank_style_script ns)))"
proof (induction cb decode emit inside h n and cb decode emit inside h ns
    rule: transform_node_transform_nodes.induct)
  case (1 cb decode emit inside h tagName attrs rawStart rawEnd kids)
  show ?case
  proof (intro allI impI)
    fix h'
    assume c: "control h = control h'"
    obtain h1 act reg where e: "ElementHandler_element h tagName attrs = (h1, act, reg)"
      by (cases "ElementHandler_element h tagName attrs") auto
    obtain h1' act' reg' where e0: "ElementHandler_element h' tagName attrs = (h1', act', reg')"
      by (cases "ElementHandler_element h' tagName attrs") auto
    have "(act', reg') = (act, reg)"
      using element_snd [of h tagName attrs h'] by (simp only: e e0 snd_conv)
    then have e': "ElementHandler_element h' tagName attrs = (h1', act, reg)"
      using e0 by simp
    have c1: "control h1 = control h1'"
      using element_control [OF c, of tagName attrs] by (simp only: e e' fst_conv)
    let ?n = "Element tagName attrs rawStart rawEnd kids"
    show "snd (transform_node cb decode emit inside h ?n)
            = snd (transform_node cb decode emit inside h' (blank_style_script ?n))
          \<and> control (fst (transform_node cb decode emit inside h ?n))
            = control (fst (transform_node cb decode emit inside h' (blank_style_script ?n)))"
    proof (cases "toLowerCase tagName \<in> set [''style'', ''script'']")
      case True
      then have b: "blank_style_script ?n
          = Element tagName attrs rawStart rawEnd (map wipe_text kids)"
        by simp
      have act: "act = Remove"
        using element_action [of h tagName attrs] e style_script_removed [OF True] by simp
      show ?thesis
      proof (cases cb)
        case True
        have "control (fst (transform_nodes cb decode False True h1 kids))
            = control (fst (transform_nodes cb decode False True h1' (map wipe_text kids)))"
          using wipe_control(2) [of h1 cb decode False True kids] c1 by blast
        then show ?thesis unfolding b using act True e e' by simp
      next
        case False
        then show ?thesis unfolding b using act e e' c1 by simp
      qed
    next
      case False
      then have b: "blank_style_script ?n
          = Element tagName attrs rawStart rawEnd (map blank_style_script kids)"
        by simp
      show ?thesis
      proof (cases act)
        case Remove
        show ?thesis
        proof (cases cb)
          case True
          have "control (fst (transform_nodes cb decode False True h1 kids))
              = control (fst (transform_nodes cb decode False True h1'
                                (map blank_style_script kids)))"
            using "1.IH"(1) [OF e [symmetric] refl Remove True] c1 by blast
          then show ?thesis unfolding b using Remove True e e' by simp
        next
          case False
          then show ?thesis unfolding b using Remove e e' c1 by simp
        qed
      next
        case Untouched
        have "snd (transform_nodes cb decode emit True h1 kids)
              = snd (transform_nodes cb decode emit True h1' (map blank_style_script kids))
            \<and> control (fst (transform_nodes cb decode emit True h1 kids))
              = control (fst (transform_nodes cb decode emit True h1'
                                (map blank_style_script kids)))"
          using "1.IH"(2) [OF e [symmetric] refl Untouched] c1 by blast
        then show ?thesis unfolding b using Untouched e e' by (simp add: case_prod_beta)
      next
        case RemoveAndKeepContent
        have k: "snd (transform_nodes cb decode emit True h1 kids)
              = snd (transform_nodes cb decode emit True h1' (map blank_style_script kids))
            \<and> control (fst (transform_nodes cb decode emit True h1 kids))
              = control (fst (transform_nodes cb decode emit True h1'
                                (map blank_style_script kids)))"
          using "1.IH"(3) [OF e [symmetric] refl RemoveAndKeepContent] c1 by blast
        then have "control (onEndTag reg (fst (transform_nodes cb decode emit True h1 kids)))
            = control (onEndTag reg (fst (transform_nodes cb decode emit True h1'
                                            (map blank_style_script kids))))"
          using onEndTag_control by blast
        then show ?thesis unfolding b using k RemoveAndKeepContent e e'
          by (simp add: case_prod_beta)
      qed
    qed
  qed
next
  case (2 cb decode emit inside h chunks)
  show ?case
    using text_chunks_control [of h _ decode emit chunks decode emit "\<lambda>c. c"]
      text_chunks_output [of h _ decode emit chunks]
    by simp
next
  case (3 cb decode emit inside h c)
  then show ?case by simp
next
  case (4 cb decode emit inside h raw)
  then show ?case by simp
next
  case (5 cb decode emit inside h)
  then show ?case by simp
next
  case (6 cb decode emit inside h n ns)
  show ?case
  proof (intro allI impI)
    fix h'
    assume c: "control h = control h'"
    obtain h1 o1 where r: "transform_node cb decode emit inside h n = (h1, o1)"
      by (cases "transform_node cb decode emit inside h n") auto
    obtain h1' o1' where r':
      "transform_node cb decode emit inside h' (blank_style_script n) = (h1', o1')"
      by (cases "transform_node cb decode emit inside h' (blank_style_script n)") auto
    have "snd (transform_node cb decode emit inside h n)
          = snd (transform_node cb decode emit inside h' (blank_style_script n))
        \<and> control (fst (transform_node cb decode emit inside h n))
          = control (fst (transform_node cb decode emit inside h' (blank_style_script n)))"
      using "6.IH"(1) c by blast
    then have o: "o1 = o1'" and c1: "control h1 = control h1'"
      by (simp_all only: r r' fst_conv snd_conv)
    have "snd (transform_nodes cb decode emit inside h1 ns)
          = snd (transform_nodes cb decode emit inside h1' (map blank_style_script ns))
        \<and> control (fst (transform_nodes cb decode emit inside h1 ns))
          = control (fst (transform_nodes cb decode emit inside h1' (map blank_style_script ns)))"
      using "6.IH"(2) [OF r [symmetric]] c1 by blast
    then show "snd (transform_nodes cb decode emit inside h (n # ns))
          = snd (transform_nodes cb decode emit inside h' (map blank_style_script (n # ns)))
        \<and> control (fst (transform_nodes cb decode emit inside h (n # ns)))
          = control (fst (transform_nodes cb decode emit inside h'
                            (map blank_style_script (n # ns))))"
      using r r' o by (simp add: case_prod_beta)
  qed
qed

text \<open>
  C8. The output of \<open>processHtml\<close> does not change when every text chunk below a \<open>style\<close>
  or \<open>script\<close> element is emptied: it is a function of a document that holds none of
  that text.
\<close>

theorem style_script_text_never_in_output:
  "fst (processHtml cb decode q (map blank_style_script html))
     = fst (processHtml cb decode q html)"
proof -
  have "snd (transform_nodes cb decode True False (new_ElementHandler q) html)
      = snd (transform_nodes cb decode True False (new_ElementHandler q)
               (map blank_style_script html))"
    using blank_same(2) [of "new_ElementHandler q" cb decode True False html] by blast
  then show ?thesis by (simp add: processHtml_def case_prod_beta)
qed

subsection \<open>Markers and queue in lockstep\<close>

lemma guarded_after: "guarded_from False (if tg = ''td'' then '' '' else [])"
  by simp

lemma marked_marker_after:
  "guarded_from False a \<Longrightarrow> marked (marker @ a) (Suc 0)"
  using marked.marked_marker [OF marked_guarded, of a] by simp

lemma guarded_escaped: "guarded_from False (escapeMarkdownV2 s)"
  by (simp add: escapeMarkdownV2_def guarded_escape_from)

lemma guarded_LF: "guarded_from False [LF]"
  by (simp add: LF_def)

lemma text_marked:
  assumes "copied_through h lst \<longrightarrow> CHR ''#'' \<notin> set t"
  shows "\<exists>pushed. linksList (fst (ElementHandler_text decode h t lst)) = linksList h @ pushed
           \<and> marked (snd (ElementHandler_text decode h t lst)) (length pushed)"
proof -
  let ?after = "if tag h = ''td'' then '' '' else []"
  have ga: "guarded_from False ?after" by simp
  consider (anchor) "tag h = ''a'' \<and> truthy (herf h)"
    | (media_push) "\<not> (tag h = ''a'' \<and> truthy (herf h))"
        "tag h \<in> set media_tags \<and> \<not> nestedInA h" "lst \<and> truthy (src h)"
    | (media_raw) "\<not> (tag h = ''a'' \<and> truthy (herf h))"
        "tag h \<in> set media_tags \<and> \<not> nestedInA h" "\<not> (lst \<and> truthy (src h))"
    | (inline) "\<not> (tag h = ''a'' \<and> truthy (herf h))"
        "\<not> (tag h \<in> set media_tags \<and> \<not> nestedInA h)" "tag h \<in> set inline_tags"
    | (block) "\<not> (tag h = ''a'' \<and> truthy (herf h))"
        "\<not> (tag h \<in> set media_tags \<and> \<not> nestedInA h)" "tag h \<notin> set inline_tags"
    by blast
  then show ?thesis
  proof cases
    case anchor
    let ?l = "\<lparr>desc = (if trim (escapeMarkdownV2 (decode t)) = [] then link_fallback
                        else trim (escapeMarkdownV2 (decode t))),
               link = string_of (herf h)\<rparr>"
    have "linksList (fst (ElementHandler_text decode h t lst)) = linksList h @ [?l]"
      using anchor by (simp add: ElementHandler_text_def Let_def)
    moreover have "snd (ElementHandler_text decode h t lst) = marker @ ?after"
      using anchor by (simp add: ElementHandler_text_def Let_def)
    ultimately show ?thesis using marked_marker_after [OF ga]
      by (metis length_Cons list.size(3))
  next
    case media_push
    let ?l = "\<lparr>desc = tag h, link = string_of (src h)\<rparr>"
    have "linksList (fst (ElementHandler_text decode h t lst)) = linksList h @ [?l]"
      using media_push by (auto simp: ElementHandler_text_def Let_def media_tags_def)
    moreover have "snd (ElementHandler_text decode h t lst) = marker @ ?after"
      using media_push by (auto simp: ElementHandler_text_def Let_def media_tags_def)
    ultimately show ?thesis using marked_marker_after [OF ga]
      by (metis length_Cons list.size(3))
  next
    case media_raw
    have "fst (ElementHandler_text decode h t lst) = h"
      using media_raw by (auto simp: ElementHandler_text_def Let_def)
    moreover have "snd (ElementHandler_text decode h t lst) = t @ ?after"
      using media_raw by (auto simp: ElementHandler_text_def Let_def)
    moreover have "CHR ''#'' \<notin> set t"
      using assms media_raw by (simp add: copied_through_def)
    then have "marked (t @ ?after) 0"
      using marked_guarded [OF guarded_from_append [OF guarded_hash_free ga]] by blast
    ultimately show ?thesis by (metis append_Nil2 list.size(3))
  next
    case inline
    have "fst (ElementHandler_text decode h t lst) = h"
      using inline by (auto simp: ElementHandler_text_def Let_def)
    moreover have "snd (ElementHandler_text decode h t lst)
        = escapeMarkdownV2 (decode t) @ ?after"
      using inline by (auto simp: ElementHandler_text_def Let_def)
    moreover have "marked (escapeMarkdownV2 (decode t) @ ?after) 0"
      using marked_guarded [OF guarded_from_append [OF guarded_escaped ga]] .
    ultimately show ?thesis by (metis append_Nil2 list.size(3))
  next
    case block
    have "fst (ElementHandler_text decode h t lst) = h"
      using block by (auto simp: ElementHandler_text_def Let_def)
    moreover have "snd (ElementHandler_text decode h t lst)
        = escapeMarkdownV2 (decode t) @ [LF] @ ?after"
      using block by (auto simp: ElementHandler_text_def Let_def)
    moreover have "marked (escapeMarkdownV2 (decode t) @ [LF] @ ?after) 0"
      using marked_guarded [OF guarded_from_append [OF guarded_escaped
            guarded_from_append [OF guarded_LF ga]]] .
    ultimately show ?thesis by (metis append_Nil2 list.size(3))
  qed
qed

lemma text_chunks_marked:
  "clean_chunks decode h cs \<Longrightarrow>
     \<exists>pushed. linksList (fst (text_chunks decode True h cs)) = linksList h @ pushed
        \<and> marked (snd (text_chunks decode True h cs)) (length pushed)"
proof (induction cs arbitrary: h)
  case Nil
  have "marked [] (length ([] :: link_descriptor list))" by (simp add: marked.marked_Nil)
  then show ?case by (metis append_Nil2 fst_conv snd_conv text_chunks.simps(1))
next
  case (Cons c cs)
  obtain h1 o1 where r: "ElementHandler_text decode h c (cs = []) = (h1, o1)"
    by (cases "ElementHandler_text decode h c (cs = [])") auto
  obtain p1 where p1: "linksList h1 = linksList h @ p1" "marked o1 (length p1)"
    using text_marked [where t = c and decode = decode and h = h and lst = "cs = []"]
      Cons.prems r by auto
  obtain p2 where p2: "linksList (fst (text_chunks decode True h1 cs)) = linksList h1 @ p2"
      "marked (snd (text_chunks decode True h1 cs)) (length p2)"
    using Cons.IH [of h1] Cons.prems r by auto
  have "linksList (fst (text_chunks decode True h (c # cs))) = linksList h @ (p1 @ p2)"
    using r p1(1) p2(1) by (simp add: case_prod_beta)
  moreover have "marked (snd (text_chunks decode True h (c # cs))) (length (p1 @ p2))"
    using r marked_append [OF p1(2) p2(2)] by (simp add: case_prod_beta)
  ultimately show ?case by blast
qed


lemma marked_empty: "marked [] (length ([] :: link_descriptor list))"
  by (simp add: marked.marked_Nil)

lemma run_marked:
  "emit \<longrightarrow> clean_node cb decode inside h n \<longrightarrow>
     (\<exists>pushed. linksList (fst (transform_node cb decode emit inside h n)) = linksList h @ pushed
         \<and> marked (snd (transform_node cb decode emit inside h n)) (length pushed))"
  "emit \<longrightarrow> clean_nodes cb decode inside h ns \<longrightarrow>
     (\<exists>pushed. linksList (fst (transform_nodes cb decode emit inside h ns)) = linksList h @ pushed
         \<and> marked (snd (transform_nodes cb decode emit inside h ns)) (length pushed))"
proof (induction cb decode emit inside h n and cb decode emit inside h ns
    rule: transform_node_transform_nodes.induct)
  case (1 cb decode emit inside h tagName attrs rawStart rawEnd kids)
  let ?n = "Element tagName attrs rawStart rawEnd kids"
  show ?case
  proof (intro impI)
    assume em: emit and cl: "clean_node cb decode inside h ?n"
    obtain h1 act reg where e: "ElementHandler_element h tagName attrs = (h1, act, reg)"
      by (cases "ElementHandler_element h tagName attrs") auto
    have l1: "linksList h1 = linksList h"
      using element_linksList [of h tagName attrs] e by simp
    show "\<exists>pushed. linksList (fst (transform_node cb decode emit inside h ?n)) = linksList h @ pushed
         \<and> marked (snd (transform_node cb decode emit inside h ?n)) (length pushed)"
    proof (cases act)
      case Remove
      have "linksList (fst (transform_node cb decode emit inside h ?n)) = linksList h"
      proof (cases cb)
        case True
        then have "linksList (fst (transform_nodes cb decode False True h1 kids)) = linksList h1"
          using cl e Remove by simp
        then show ?thesis using Remove True e l1 by simp
      next
        case False
        then show ?thesis using Remove e l1 by simp
      qed
      moreover have "snd (transform_node cb decode emit inside h ?n) = []"
        using Remove e by simp
      ultimately show ?thesis using marked_empty by (metis append_Nil2)
    next
      case Untouched
      have raw: "CHR ''#'' \<notin> set rawStart" "CHR ''#'' \<notin> set rawEnd"
        and ck: "clean_nodes cb decode True h1 kids"
        using cl e Untouched by simp_all
      obtain p where p: "linksList (fst (transform_nodes cb decode emit True h1 kids))
            = linksList h1 @ p"
          "marked (snd (transform_nodes cb decode emit True h1 kids)) (length p)"
        using "1.IH"(2) [OF e [symmetric] refl Untouched] em ck by blast
      have "marked (rawStart @ snd (transform_nodes cb decode emit True h1 kids) @ rawEnd)
              (0 + (length p + 0))"
        by (intro marked_append marked_guarded guarded_hash_free raw p(2))
      then have "marked (snd (transform_node cb decode emit inside h ?n)) (length p)"
        using Untouched e em by (simp add: case_prod_beta)
      moreover have "linksList (fst (transform_node cb decode emit inside h ?n)) = linksList h @ p"
        using Untouched e p(1) l1 by (simp add: case_prod_beta)
      ultimately show ?thesis by blast
    next
      case RemoveAndKeepContent
      have ck: "clean_nodes cb decode True h1 kids"
        using cl e RemoveAndKeepContent by simp
      obtain p where p: "linksList (fst (transform_nodes cb decode emit True h1 kids))
            = linksList h1 @ p"
          "marked (snd (transform_nodes cb decode emit True h1 kids)) (length p)"
        using "1.IH"(3) [OF e [symmetric] refl RemoveAndKeepContent] em ck by blast
      have "marked (snd (transform_node cb decode emit inside h ?n)) (length p)"
        using RemoveAndKeepContent e p(2) by (simp add: case_prod_beta)
      moreover have "linksList (fst (transform_node cb decode emit inside h ?n)) = linksList h @ p"
        using RemoveAndKeepContent e p(1) l1
        by (simp add: case_prod_beta onEndTag_linksList)
      ultimately show ?thesis by blast
    qed
  qed
next
  case (2 cb decode emit inside h chunks)
  show ?case
  proof (cases inside)
    case True
    then show ?thesis using text_chunks_marked [of decode h chunks] by simp
  next
    case False
    show ?thesis
    proof (intro impI)
      assume em: emit and c: "clean_node cb decode inside h (TextNode chunks)"
      have "CHR ''#'' \<notin> set (concat chunks)"
        using c False by simp
      then have m: "marked (concat chunks) (length ([] :: link_descriptor list))"
        using marked_guarded [OF guarded_hash_free, of "concat chunks"] by simp
      have t: "transform_node cb decode emit inside h (TextNode chunks) = (h, concat chunks)"
        using False em by simp
      show "\<exists>pushed. linksList (fst (transform_node cb decode emit inside h (TextNode chunks)))
              = linksList h @ pushed
          \<and> marked (snd (transform_node cb decode emit inside h (TextNode chunks)))
              (length pushed)"
        unfolding t fst_conv snd_conv using m by (metis append_Nil2)
    qed
  qed
next
  case (3 cb decode emit inside h c)
  show ?case using marked_empty by simp
next
  case (4 cb decode emit inside h raw)
  show ?case
  proof (intro impI)
    assume emit and "clean_node cb decode inside h (DoctypeNode raw)"
    then have "marked (snd (transform_node cb decode emit inside h (DoctypeNode raw)))
        (length ([] :: link_descriptor list))"
      using marked_guarded [OF guarded_hash_free, of raw] by simp
    then show "\<exists>pushed. linksList (fst (transform_node cb decode emit inside h (DoctypeNode raw)))
          = linksList h @ pushed
        \<and> marked (snd (transform_node cb decode emit inside h (DoctypeNode raw))) (length pushed)"
      by (metis append_Nil2 fst_conv transform_node.simps(4))
  qed
next
  case (5 cb decode emit inside h)
  show ?case using marked_empty by simp
next
  case (6 cb decode emit inside h n ns)
  show ?case
  proof (intro impI)
    assume em: emit and cl: "clean_nodes cb decode inside h (n # ns)"
    obtain h1 o1 where r: "transform_node cb decode emit inside h n = (h1, o1)"
      by (cases "transform_node cb decode emit inside h n") auto
    have "\<exists>pushed. linksList (fst (transform_node cb decode emit inside h n)) = linksList h @ pushed
         \<and> marked (snd (transform_node cb decode emit inside h n)) (length pushed)"
      using "6.IH"(1) em cl by simp
    then obtain p1 where p1: "linksList h1 = linksList h @ p1" "marked o1 (length p1)"
      using r by auto
    have "\<exists>pushed. linksList (fst (transform_nodes cb decode emit inside h1 ns))
            = linksList h1 @ pushed
         \<and> marked (snd (transform_nodes cb decode emit inside h1 ns)) (length pushed)"
      using "6.IH"(2) [OF r [symmetric]] em cl r by simp
    then obtain p2 where p2:
      "linksList (fst (transform_nodes cb decode emit inside h1 ns)) = linksList h1 @ p2"
      "marked (snd (transform_nodes cb decode emit inside h1 ns)) (length p2)"
      by auto
    have "linksList (fst (transform_nodes cb decode emit inside h (n # ns))) = linksList h @ (p1 @ p2)"
      using r p1(1) p2(1) by (simp add: case_prod_beta)
    moreover have "marked (snd (transform_nodes cb decode emit inside h (n # ns))) (length (p1 @ p2))"
      using r marked_append [OF p1(2) p2(2)] by (simp add: case_prod_beta)
    ultimately show "\<exists>pushed. linksList (fst (transform_nodes cb decode emit inside h (n # ns)))
            = linksList h @ pushed
         \<and> marked (snd (transform_nodes cb decode emit inside h (n # ns))) (length pushed)"
      by blast
  qed
qed

text \<open>
  When nothing that is copied through unchanged holds the marker character, and no
  descriptor is pushed from inside a removed element, the text written by the rewriting
  pass holds exactly as many markers as descriptors were pushed, and the queue only
  grows at its end. The statement is for every state the handlers start in, so it holds
  for every prefix of the document: the i-th marker is written by the callback that
  pushes the i-th descriptor.
\<close>

lemma lockstep_when_clean:
  assumes "clean_nodes cb decode inside h html"
  shows "\<exists>pushed. linksList (fst (transform_nodes cb decode True inside h html))
             = linksList h @ pushed
           \<and> count_markers (snd (transform_nodes cb decode True inside h html)) = length pushed
           \<and> length (split_linkReplacer (snd (transform_nodes cb decode True inside h html)))
               = Suc (length pushed)"
proof -
  obtain pushed where p:
    "linksList (fst (transform_nodes cb decode True inside h html)) = linksList h @ pushed"
    "marked (snd (transform_nodes cb decode True inside h html)) (length pushed)"
    using run_marked(2) [of True cb decode inside h html] assms by blast
  have "count_markers (snd (transform_nodes cb decode True inside h html)) = length pushed"
    using marked_count [OF p(2)] by blast
  then show ?thesis using p(1) by (auto simp: split_linkReplacer_def split_loop_length)
qed

lemma lockstep_when_clean_example:
  "clean_nodes True id False (new_ElementHandler [])
     [Element ''p'' [] ''<p>'' ''</p>'' [TextNode [''a#b'', '''']],
      Element ''a'' [(''href'', ''u'')] ''<a href=u>'' ''</a>'' [TextNode [''go'', '''']],
      Element ''style'' [] ''<style>'' ''</style>'' [TextNode [''x'', '''']]]
   \<and> linksList (fst (transform_nodes True id True False (new_ElementHandler [])
           [Element ''p'' [] ''<p>'' ''</p>'' [TextNode [''a#b'', '''']],
            Element ''a'' [(''href'', ''u'')] ''<a href=u>'' ''</a>'' [TextNode [''go'', '''']],
            Element ''style'' [] ''<style>'' ''</style>'' [TextNode [''x'', '''']]]))
       = [\<lparr>desc = ''go'', link = ''u''\<rparr>]
   \<and> snd (transform_nodes True id True False (new_ElementHandler [])
           [Element ''p'' [] ''<p>'' ''</p>'' [TextNode [''a#b'', '''']],
            Element ''a'' [(''href'', ''u'')] ''<a href=u>'' ''</a>'' [TextNode [''go'', '''']],
            Element ''style'' [] ''<style>'' ''</style>'' [TextNode [''x'', '''']]])
       = ''a'' @ [backslash] @ ''#b'' @ [LF, LF] @ marker"
proof -
  let ?d = "[Element ''p'' [] ''<p>'' ''</p>'' [TextNode [''a#b'', '''']],
            Element ''a'' [(''href'', ''u'')] ''<a href=u>'' ''</a>'' [TextNode [''go'', '''']],
            Element ''style'' [] ''<style>'' ''</style>'' [TextNode [''x'', '''']]]"
  have a: "clean_nodes True id False (new_ElementHandler []) ?d"
    by code_simp
  have c: "linksList (fst (transform_nodes True id True False (new_ElementHandler []) ?d))
       = [\<lparr>desc = ''go'', link = ''u''\<rparr>]"
    by code_simp
  have d: "snd (transform_nodes True id True False (new_ElementHandler []) ?d)
       = ''a'' @ [backslash] @ ''#b'' @ [LF, LF] @ marker"
    by code_simp
  show ?thesis
    by (intro conjI a c d)
qed

lemma cleanup_marker: "cleanup ''###############'' = ''###############''"
  by code_simp

lemma count_markers_literal: "count_markers ''###############'' = 1"
  by code_simp

text \<open>
  C2. On \<open><p><img>###############</p>\<close> the output of \<open>processHtml\<close> holds one marker and
  the queue is empty: the text that follows a media element is written as it is, not
  escaped as in every other branch of the text handler, so fifteen marker characters in
  it stand in the output as a marker that no descriptor belongs to.
\<close>

theorem copied_text_is_taken_for_marker:
  "processHtml cb decode []
     [Element ''p'' [] ''<p>'' ''</p>''
        [Element ''img'' [] ''<img>'' [] [], TextNode [''###############'', '''']]]
     = (''###############'', [])
   \<and> count_markers (fst (processHtml cb decode []
        [Element ''p'' [] ''<p>'' ''</p>''
           [Element ''img'' [] ''<img>'' [] [], TextNode [''###############'', '''']]])) = 1
   \<and> length (snd (processHtml cb decode []
        [Element ''p'' [] ''<p>'' ''</p>''
           [Element ''img'' [] ''<img>'' [] [], TextNode [''###############'', '''']]])) = 0"
proof -
  let ?d = "[Element ''p'' [] ''<p>'' ''</p>''
        [Element ''img'' [] ''<img>'' [] [], TextNode [''###############'', '''']]]"
  have "snd (transform_nodes cb decode True False (new_ElementHandler []) ?d)
      = ''###############''"
    by (simp add: element_p element_img new_ElementHandler_def onEndTag_def
        ElementHandler_text_def getAttribute_def truthy_def media_tags_def)
  moreover have "linksList (fst (transform_nodes cb decode True False (new_ElementHandler []) ?d))
      = []"
    by (simp add: element_p element_img new_ElementHandler_def onEndTag_def
        ElementHandler_text_def getAttribute_def truthy_def media_tags_def)
  ultimately have p: "processHtml cb decode [] ?d = (''###############'', [])"
    by (simp add: processHtml_def case_prod_beta cleanup_marker)
  show ?thesis unfolding p fst_conv snd_conv
    by (intro conjI refl count_markers_literal list.size(3))
qed

text \<open>
  Text that stands outside every element gets no callback: it reaches the output as it
  is, marker characters included.
\<close>

lemma top_level_text_is_copied:
  "processHtml cb decode [] [TextNode [''###############'', '''']] = (''###############'', [])"
  by (simp add: processHtml_def new_ElementHandler_def cleanup_marker)

text \<open>
  The cleanup breaks the correspondence as well: the greedy doctype pattern deletes up
  to the last \<open>>\<close> of the first line, markers included.
\<close>

lemma doctype_cleanup_deletes_marker:
  "processHtml True id []
     [DoctypeNode ''<!DOCTYPE html>'',
      Element ''b'' [] ''<b>'' ''</b>''
        [Element ''a'' [(''href'', ''u'')] ''<a href=u>'' ''</a>'' [TextNode [''go'', '''']],
         TextNode ['' > x'', '''']]]
   = ('' x'', [\<lparr>desc = ''go'', link = ''u''\<rparr>])"
  by code_simp

text \<open>
  If the rewriter runs the handlers on the content of removed elements, text inside a
  removed element can push a descriptor whose marker is never written.
\<close>

lemma removed_text_pushes_without_marker:
  "processHtml True id []
     [Element ''a'' [(''href'', ''u'')] ''<a href=u>'' ''</a>''
        [Element ''style'' [] ''<style>'' ''</style>'' [TextNode [''x'', '''']]]]
   = ([], [\<lparr>desc = ''x'', link = ''u''\<rparr>])"
  by code_simp

subsection \<open>Chunker: cutting the builder\<close>

lemma substring_take_drop: "a \<le> b \<Longrightarrow> substring s a b = take (b - a) (drop a s)"
  by (auto simp: substring_def Let_def min_def max_def)

lemma splitAndPush_from_blocks:
  "\<exists>blocks. fst (splitAndPush_from i arr str) = arr @ blocks
      \<and> (\<forall>b \<in> set blocks. length b = MAX_TELEGRAM_MESSAGE_LENGTH)
      \<and> concat blocks @ snd (splitAndPush_from i arr str) = drop i str
      \<and> length (snd (splitAndPush_from i arr str)) < MAX_TELEGRAM_MESSAGE_LENGTH"
proof (induction i arr str rule: splitAndPush_from.induct)
  case (1 i arr str)
  let ?M = MAX_TELEGRAM_MESSAGE_LENGTH
  let ?chunk = "take ?M (drop i str)"
  have sub: "substring str i (i + ?M) = ?chunk" by (simp add: substring_take_drop)
  show ?case
  proof (cases "i < length str")
    case False
    then have "splitAndPush_from i arr str = (arr, [])"
      by (subst splitAndPush_from.simps) (simp only: if_False)
    then show ?thesis using False by (simp add: MAX_TELEGRAM_MESSAGE_LENGTH_def)
  next
    case True
    show ?thesis
    proof (cases "length ?chunk < ?M")
      case short: True
      then have r: "splitAndPush_from i arr str = (arr, ?chunk)"
        using True
        by (subst splitAndPush_from.simps) (simp only: sub Let_def if_True)
      have "?chunk = drop i str" using short by (simp add: min_def split: if_splits)
      then show ?thesis using r short by simp
    next
      case full: False
      then have r: "splitAndPush_from i arr str
          = splitAndPush_from (i + ?M) (arr @ [?chunk]) str"
        using True
        by (subst splitAndPush_from.simps) (simp only: sub Let_def if_True if_False)
      obtain blocks where b:
        "fst (splitAndPush_from (i + ?M) (arr @ [?chunk]) str) = (arr @ [?chunk]) @ blocks"
        "\<forall>b \<in> set blocks. length b = ?M"
        "concat blocks @ snd (splitAndPush_from (i + ?M) (arr @ [?chunk]) str)
           = drop (i + ?M) str"
        "length (snd (splitAndPush_from (i + ?M) (arr @ [?chunk]) str)) < ?M"
        using "1.IH" [OF True sub [symmetric] full] by blast
      have len: "length ?chunk = ?M" using full by (simp add: min_def split: if_splits)
      have "?chunk @ drop (i + ?M) str = drop i str"
        by (metis add.commute append_take_drop_id drop_drop)
      then have "concat (?chunk # blocks) @ snd (splitAndPush_from i arr str) = drop i str"
        using b(3) r by simp
      moreover have "fst (splitAndPush_from i arr str) = arr @ (?chunk # blocks)"
        using b(1) r by simp
      moreover have "\<forall>b \<in> set (?chunk # blocks). length b = ?M" using b(2) len by simp
      ultimately show ?thesis using b(4) r by metis
    qed
  qed
qed

lemma splitAndPush_blocks:
  assumes "splitAndPush arr str = (arr', rest)"
  obtains blocks where "arr' = arr @ blocks"
    and "\<forall>b \<in> set blocks. length b = MAX_TELEGRAM_MESSAGE_LENGTH"
    and "concat blocks @ rest = str"
    and "length rest < MAX_TELEGRAM_MESSAGE_LENGTH"
  using splitAndPush_from_blocks [of 0 arr str] assms
  by (auto simp: splitAndPush_def)

subsection \<open>Chunk boundaries\<close>

lemma boundaries_Nil: "set (boundaries []) = {0}"
  by (simp add: boundaries_def)

lemma boundaries_Cons:
  "set (boundaries (x # xs)) = insert 0 ((\<lambda>c. length x + c) ` set (boundaries xs))"
proof -
  have "[0..<Suc (Suc (length xs))] = 0 # map Suc [0..<Suc (length xs)]"
    by (metis map_Suc_upt upt_conv_Cons zero_less_Suc)
  then show ?thesis by (simp add: boundaries_def image_image del: upt_Suc)
qed

lemma zero_in_boundaries: "0 \<in> set (boundaries ys)"
  by (cases ys) (simp_all add: boundaries_Nil boundaries_Cons)

lemma boundaries_append:
  "set (boundaries (xs @ ys))
     = set (boundaries xs) \<union> (\<lambda>c. length (concat xs) + c) ` set (boundaries ys)"
proof (induction xs)
  case Nil
  then show ?case using zero_in_boundaries [of ys] by (auto simp: boundaries_Nil)
next
  case (Cons x xs)
  show ?case
    unfolding append_Cons boundaries_Cons Cons
    by (auto simp: image_Un image_image add.assoc)
qed

lemma boundaries_le: "c \<in> set (boundaries xs) \<Longrightarrow> c \<le> length (concat xs)"
proof (induction xs arbitrary: c)
  case Nil
  then show ?case by (simp add: boundaries_Nil)
next
  case (Cons x xs)
  then show ?case by (auto simp: boundaries_Cons)
qed

lemma boundaries_blocks:
  "\<forall>b \<in> set bs. length b = m \<Longrightarrow> c \<in> set (boundaries bs) \<Longrightarrow> c = 0 \<or> m \<le> c"
  by (cases bs) (auto simp: boundaries_Nil boundaries_Cons)

lemma boundaries_snoc:
  "set (boundaries (xs @ [x])) = insert (length (concat xs) + length x) (set (boundaries xs))"
proof -
  have "set (boundaries [x]) = {0, length x}"
    by (auto simp: boundaries_Cons boundaries_Nil)
  moreover have "length (concat xs) \<in> set (boundaries xs)"
    by (auto simp: boundaries_def intro!: image_eqI [where x = "length xs"])
  ultimately show ?thesis by (auto simp: boundaries_append)
qed


subsection \<open>Chunker: one iteration\<close>

lemma loop_body_unfold:
  "loop_body (chunks, builder, q) t =
     (case (if MAX_TELEGRAM_MESSAGE_LENGTH < length (builder @ t)
            then splitAndPush chunks (builder @ t) else (chunks, builder @ t)) of
        (chunks1, builder2) \<Rightarrow>
          (case q of
             [] \<Rightarrow> (chunks1, builder2, [])
           | l # rest \<Rightarrow>
               if MAX_TELEGRAM_MESSAGE_LENGTH < length builder2 + length (linkEntity l)
               then (chunks1 @ [builder2], linkEntity l, rest)
               else (chunks1, builder2 @ linkEntity l, rest)))"
  by (auto simp: loop_body_def Let_def split: prod.splits list.splits)

lemma fragment_step:
  assumes "length builder \<le> MAX_TELEGRAM_MESSAGE_LENGTH"
    and "(if MAX_TELEGRAM_MESSAGE_LENGTH < length (builder @ t)
          then splitAndPush chunks (builder @ t) else (chunks, builder @ t))
         = (chunks1, builder2)"
  shows "length builder2 \<le> MAX_TELEGRAM_MESSAGE_LENGTH"
    and "concat chunks1 @ builder2 = concat chunks @ builder @ t"
    and "\<forall>c \<in> set (boundaries chunks1).
           c \<in> set (boundaries chunks) \<or> length (concat chunks) + length builder \<le> c"
    and "(\<forall>c \<in> set chunks. length c \<le> MAX_TELEGRAM_MESSAGE_LENGTH)
           \<Longrightarrow> (\<forall>c \<in> set chunks1. length c \<le> MAX_TELEGRAM_MESSAGE_LENGTH)"
proof -
  let ?M = MAX_TELEGRAM_MESSAGE_LENGTH
  have "length builder2 \<le> ?M
      \<and> concat chunks1 @ builder2 = concat chunks @ builder @ t
      \<and> (\<forall>c \<in> set (boundaries chunks1).
           c \<in> set (boundaries chunks) \<or> length (concat chunks) + length builder \<le> c)
      \<and> ((\<forall>c \<in> set chunks. length c \<le> ?M) \<longrightarrow> (\<forall>c \<in> set chunks1. length c \<le> ?M))"
  proof (cases "?M < length (builder @ t)")
    case False
    then have "chunks1 = chunks" "builder2 = builder @ t" using assms(2) by simp_all
    then show ?thesis using False by simp
  next
    case True
    then have sp: "splitAndPush chunks (builder @ t) = (chunks1, builder2)"
      using assms(2) by simp
    obtain blocks where b: "chunks1 = chunks @ blocks"
        "\<forall>b \<in> set blocks. length b = ?M"
        "concat blocks @ builder2 = builder @ t"
        "length builder2 < ?M"
      using splitAndPush_blocks [OF sp] by blast
    have "\<forall>c \<in> set (boundaries chunks1).
           c \<in> set (boundaries chunks) \<or> length (concat chunks) + length builder \<le> c"
    proof
      fix c
      assume "c \<in> set (boundaries chunks1)"
      then consider "c \<in> set (boundaries chunks)"
        | d where "d \<in> set (boundaries blocks)" "c = length (concat chunks) + d"
        unfolding b(1) boundaries_append by auto
      then show "c \<in> set (boundaries chunks) \<or> length (concat chunks) + length builder \<le> c"
      proof cases
        case 1
        then show ?thesis by simp
      next
        case 2
        have "d = 0 \<or> ?M \<le> d" using boundaries_blocks [OF b(2) 2(1)] .
        moreover have "length (concat chunks) \<in> set (boundaries chunks)"
          using boundaries_snoc [of chunks "[]"] boundaries_append [of chunks "[[]]"]
          by (auto simp: boundaries_def intro!: image_eqI [where x = "length chunks"])
        ultimately show ?thesis using 2(2) assms(1) by auto
      qed
    qed
    moreover have "concat chunks1 @ builder2 = concat chunks @ builder @ t"
      using b(1) b(3) by simp
    moreover have "(\<forall>c \<in> set chunks. length c \<le> ?M) \<longrightarrow> (\<forall>c \<in> set chunks1. length c \<le> ?M)"
      using b(1) b(2) by auto
    ultimately show ?thesis using b(4) by simp
  qed
  then show "length builder2 \<le> ?M"
    and "concat chunks1 @ builder2 = concat chunks @ builder @ t"
    and "\<forall>c \<in> set (boundaries chunks1).
           c \<in> set (boundaries chunks) \<or> length (concat chunks) + length builder \<le> c"
    and "(\<forall>c \<in> set chunks. length c \<le> ?M) \<Longrightarrow> (\<forall>c \<in> set chunks1. length c \<le> ?M)"
    by blast+
qed

lemma loop_body_step:
  assumes "length builder \<le> MAX_TELEGRAM_MESSAGE_LENGTH"
    and "\<forall>l \<in> set (take 1 q). length (linkEntity l) \<le> MAX_TELEGRAM_MESSAGE_LENGTH"
    and "loop_body (chunks, builder, q) t = (chunks', builder', q')"
  shows "length builder' \<le> MAX_TELEGRAM_MESSAGE_LENGTH"
    and "concat chunks' @ builder'
           = concat chunks @ builder @ concat (map snd (pieces [t] q))"
    and "\<forall>c \<in> set (boundaries chunks').
           c \<in> set (boundaries chunks) \<or> length (concat chunks) + length builder \<le> c"
    and "q' = tl q"
    and "\<forall>(a, b) \<in> set (link_spans (length (concat chunks) + length builder) (pieces [t] q)).
           (\<forall>c \<in> set (boundaries chunks'). c \<le> a)
           \<and> b = length (concat chunks') + length builder'"
    and "(\<forall>c \<in> set chunks. length c \<le> MAX_TELEGRAM_MESSAGE_LENGTH)
           \<Longrightarrow> (\<forall>c \<in> set chunks'. length c \<le> MAX_TELEGRAM_MESSAGE_LENGTH)"
proof -
  let ?M = MAX_TELEGRAM_MESSAGE_LENGTH
  obtain chunks1 builder2 where ph:
    "(if ?M < length (builder @ t) then splitAndPush chunks (builder @ t)
      else (chunks, builder @ t)) = (chunks1, builder2)"
    by (cases "if ?M < length (builder @ t) then splitAndPush chunks (builder @ t)
               else (chunks, builder @ t)") auto
  note f = fragment_step [OF assms(1) ph]
  have len1: "length (concat chunks1) + length builder2
      = length (concat chunks) + length builder + length t"
    using arg_cong [OF f(2), of length] by simp
  have "length builder' \<le> ?M
      \<and> concat chunks' @ builder' = concat chunks @ builder @ concat (map snd (pieces [t] q))
      \<and> (\<forall>c \<in> set (boundaries chunks').
           c \<in> set (boundaries chunks) \<or> length (concat chunks) + length builder \<le> c)
      \<and> q' = tl q
      \<and> (\<forall>(a, b) \<in> set (link_spans (length (concat chunks) + length builder) (pieces [t] q)).
           (\<forall>c \<in> set (boundaries chunks'). c \<le> a)
           \<and> b = length (concat chunks') + length builder')
      \<and> ((\<forall>c \<in> set chunks. length c \<le> ?M) \<longrightarrow> (\<forall>c \<in> set chunks'. length c \<le> ?M))"
  proof (cases q)
    case Nil
    then have r: "chunks' = chunks1" "builder' = builder2" "q' = []"
      using assms(3) ph by (simp_all add: loop_body_unfold)
    show ?thesis using f Nil r by simp
  next
    case (Cons l rest)
    have le: "length (linkEntity l) \<le> ?M" using assms(2) Cons by simp
    show ?thesis
    proof (cases "?M < length builder2 + length (linkEntity l)")
      case True
      then have r: "chunks' = chunks1 @ [builder2]" "builder' = linkEntity l" "q' = rest"
        using assms(3) ph Cons by (simp_all add: loop_body_unfold)
      have bd: "set (boundaries chunks')
          = insert (length (concat chunks1) + length builder2) (set (boundaries chunks1))"
        unfolding r(1) by (rule boundaries_snoc)
      have 1: "\<forall>c \<in> set (boundaries chunks').
           c \<in> set (boundaries chunks) \<or> length (concat chunks) + length builder \<le> c"
        using bd f(3) len1 by auto
      have 2: "\<forall>c \<in> set (boundaries chunks'). c \<le> length (concat chunks) + length builder + length t"
        using boundaries_le [of _ chunks'] r(1) len1 by auto
      have 3: "(\<forall>c \<in> set chunks. length c \<le> ?M) \<longrightarrow> (\<forall>c \<in> set chunks'. length c \<le> ?M)"
        using f(4) f(1) r(1) by auto
      show ?thesis using 1 2 3 r le f(2) len1 Cons by simp
    next
      case False
      then have r: "chunks' = chunks1" "builder' = builder2 @ linkEntity l" "q' = rest"
        using assms(3) ph Cons by (simp_all add: loop_body_unfold)
      have 2: "\<forall>c \<in> set (boundaries chunks'). c \<le> length (concat chunks) + length builder + length t"
      proof
        fix c
        assume "c \<in> set (boundaries chunks')"
        then have "c \<le> length (concat chunks1)" using boundaries_le r(1) by blast
        then show "c \<le> length (concat chunks) + length builder + length t"
          using len1 by linarith
      qed
      have 3: "(\<forall>c \<in> set chunks. length c \<le> ?M) \<longrightarrow> (\<forall>c \<in> set chunks'. length c \<le> ?M)"
        using f(4) r(1) by auto
      have 4: "concat chunks' @ builder' = concat chunks @ builder @ t @ linkEntity l"
        using f(2) r by simp
      show ?thesis using f(3) 2 3 4 r False len1 Cons by simp
    qed
  qed
  then show "length builder' \<le> ?M"
    and "concat chunks' @ builder'
           = concat chunks @ builder @ concat (map snd (pieces [t] q))"
    and "\<forall>c \<in> set (boundaries chunks').
           c \<in> set (boundaries chunks) \<or> length (concat chunks) + length builder \<le> c"
    and "q' = tl q"
    and "\<forall>(a, b) \<in> set (link_spans (length (concat chunks) + length builder) (pieces [t] q)).
           (\<forall>c \<in> set (boundaries chunks'). c \<le> a)
           \<and> b = length (concat chunks') + length builder'"
    and "(\<forall>c \<in> set chunks. length c \<le> ?M) \<Longrightarrow> (\<forall>c \<in> set chunks'. length c \<le> ?M)"
    by blast+
qed


subsection \<open>Chunker: the whole loop\<close>

lemma pieces_Cons: "pieces (t # ts) q = pieces [t] q @ pieces ts (tl q)"
  by (cases q) simp_all

lemma link_spans_append:
  "link_spans off (ps @ ps')
     = link_spans off ps @ link_spans (off + length (concat (map snd ps))) ps'"
  by (induction ps arbitrary: off) (auto simp: add.assoc)

lemma link_spans_bounds:
  "(a, b) \<in> set (link_spans off ps)
     \<Longrightarrow> off \<le> a \<and> a \<le> b \<and> b \<le> off + length (concat (map snd ps))"
proof (induction ps arbitrary: off)
  case Nil
  then show ?case by simp
next
  case (Cons p ps)
  obtain is_link s where p: "p = (is_link, s)" by (cases p) auto
  from Cons.prems consider "a = off" "b = off + length s"
    | "(a, b) \<in> set (link_spans (off + length s) ps)"
    unfolding p by (auto split: if_splits)
  then show ?case
  proof cases
    case 1
    then show ?thesis by (simp add: p)
  next
    case 2
    then show ?thesis using Cons.IH [of "off + length s"] by (auto simp: p)
  qed
qed

lemma chunk_loop_inv:
  assumes "\<forall>l \<in> set (take (length ts) q).
             length (linkEntity l) \<le> MAX_TELEGRAM_MESSAGE_LENGTH"
    and "length builder \<le> MAX_TELEGRAM_MESSAGE_LENGTH"
    and "chunk_loop ts (chunks, builder, q) = (chunks', builder', q')"
  shows "length builder' \<le> MAX_TELEGRAM_MESSAGE_LENGTH
    \<and> concat chunks' @ builder' = concat chunks @ builder @ concat (map snd (pieces ts q))
    \<and> (\<forall>c \<in> set (boundaries chunks').
          c \<in> set (boundaries chunks) \<or> length (concat chunks) + length builder \<le> c)
    \<and> (\<forall>(a, b) \<in> set (link_spans (length (concat chunks) + length builder) (pieces ts q)).
          \<forall>c \<in> set (boundaries chunks'). c \<le> a \<or> b \<le> c)
    \<and> ((\<forall>c \<in> set chunks. length c \<le> MAX_TELEGRAM_MESSAGE_LENGTH)
          \<longrightarrow> (\<forall>c \<in> set chunks'. length c \<le> MAX_TELEGRAM_MESSAGE_LENGTH))"
  using assms
proof (induction ts arbitrary: chunks builder q)
  case Nil
  then show ?case by simp
next
  case (Cons t ts)
  let ?M = MAX_TELEGRAM_MESSAGE_LENGTH
  obtain c1 b1 q1 where s: "loop_body (chunks, builder, q) t = (c1, b1, q1)"
    by (cases "loop_body (chunks, builder, q) t") auto
  have hd: "\<forall>l \<in> set (take 1 q). length (linkEntity l) \<le> ?M"
    using Cons.prems(1) by (cases q) auto
  note st = loop_body_step [OF Cons.prems(2) hd s]
  have q1: "\<forall>l \<in> set (take (length ts) q1). length (linkEntity l) \<le> ?M"
    using st(4) Cons.prems(1) by (cases q) auto
  have run: "chunk_loop ts (c1, b1, q1) = (chunks', builder', q')"
    using Cons.prems(3) s by simp
  note ih = Cons.IH [OF q1 st(1) run]
  let ?off = "length (concat chunks) + length builder"
  have tot: "length (concat c1) + length b1 = ?off + length (concat (map snd (pieces [t] q)))"
    using arg_cong [OF st(2), of length] by simp
  have cat: "concat chunks' @ builder'
      = concat chunks @ builder @ concat (map snd (pieces (t # ts) q))"
    using ih st(2) st(4) by (simp add: pieces_Cons [of t ts q])
  have bnd: "\<forall>c \<in> set (boundaries chunks').
          c \<in> set (boundaries chunks) \<or> ?off \<le> c"
  proof
    fix c
    assume "c \<in> set (boundaries chunks')"
    then have "c \<in> set (boundaries c1) \<or> length (concat c1) + length b1 \<le> c"
      using ih by blast
    then show "c \<in> set (boundaries chunks) \<or> ?off \<le> c"
      using st(3) tot by auto
  qed
  have "c \<le> a \<or> b \<le> c"
    if ab: "(a, b) \<in> set (link_spans ?off (pieces (t # ts) q))"
      and c: "c \<in> set (boundaries chunks')" for a b c
  proof -
    from ab consider "(a, b) \<in> set (link_spans ?off (pieces [t] q))"
      | "(a, b) \<in> set (link_spans (length (concat c1) + length b1) (pieces ts q1))"
      unfolding pieces_Cons [of t ts q] link_spans_append tot st(4) by auto
    then show ?thesis
    proof cases
      case 1
      then have h: "(\<forall>c \<in> set (boundaries c1). c \<le> a)" "b = length (concat c1) + length b1"
        using st(5) by auto
      have "c \<in> set (boundaries c1) \<or> length (concat c1) + length b1 \<le> c"
        using ih c by blast
      then show ?thesis using h by auto
    next
      case 2
      then show ?thesis using ih c by blast
    qed
  qed
  then have sp: "\<forall>(a, b) \<in> set (link_spans ?off (pieces (t # ts) q)).
          \<forall>c \<in> set (boundaries chunks'). c \<le> a \<or> b \<le> c"
    by blast
  have sz: "(\<forall>c \<in> set chunks. length c \<le> ?M) \<longrightarrow> (\<forall>c \<in> set chunks'. length c \<le> ?M)"
    using st(6) ih by blast
  show ?case using ih cat bnd sp sz by blast
qed

lemma build_chunks_fit:
  assumes "\<forall>l \<in> set (take (Suc (count_markers str)) q).
             length (linkEntity l) \<le> MAX_TELEGRAM_MESSAGE_LENGTH"
  shows "atomic (fst (build_chunks str q)) (link_spans 0 (pieces (split_linkReplacer str) q))"
    and "concat (fst (build_chunks str q)) = concat (map snd (pieces (split_linkReplacer str) q))"
    and "\<forall>c \<in> set (fst (build_chunks str q)). length c \<le> MAX_TELEGRAM_MESSAGE_LENGTH"
proof -
  let ?ts = "split_linkReplacer str"
  let ?ps = "pieces ?ts q"
  obtain chunks' builder' q' where r: "chunk_loop ?ts ([], [], q) = (chunks', builder', q')"
    by (cases "chunk_loop ?ts ([], [], q)") auto
  have fit: "\<forall>l \<in> set (take (length ?ts) q).
      length (linkEntity l) \<le> MAX_TELEGRAM_MESSAGE_LENGTH"
    using assms by (simp add: split_linkReplacer_def split_loop_length)
  have inv: "length builder' \<le> MAX_TELEGRAM_MESSAGE_LENGTH"
    "concat chunks' @ builder' = concat (map snd ?ps)"
    "\<forall>(a, b) \<in> set (link_spans 0 ?ps). \<forall>c \<in> set (boundaries chunks'). c \<le> a \<or> b \<le> c"
    "\<forall>c \<in> set chunks'. length c \<le> MAX_TELEGRAM_MESSAGE_LENGTH"
    using chunk_loop_inv [OF fit _ r] by simp_all
  have f: "fst (build_chunks str q) = (if length builder' > 0 then chunks' @ [builder'] else chunks')"
    using r by (simp add: build_chunks_def)
  show "concat (fst (build_chunks str q)) = concat (map snd ?ps)"
    using f inv(2) by auto
  show "\<forall>c \<in> set (fst (build_chunks str q)). length c \<le> MAX_TELEGRAM_MESSAGE_LENGTH"
    using f inv(1) inv(4) by auto
  have tot: "length (concat chunks') + length builder' = length (concat (map snd ?ps))"
    using arg_cong [OF inv(2), of length] by simp
  have "c \<le> a \<or> b \<le> c"
    if ab: "(a, b) \<in> set (link_spans 0 ?ps)"
      and c: "c \<in> set (boundaries (fst (build_chunks str q)))" for a b c
  proof -
    have "c \<in> set (boundaries chunks') \<or> c = length (concat chunks') + length builder'"
      using c f by (auto simp: boundaries_snoc split: if_splits)
    moreover have "b \<le> length (concat (map snd ?ps))"
      using link_spans_bounds [OF ab] by simp
    ultimately show ?thesis using inv(3) ab tot by auto
  qed
  then show "atomic (fst (build_chunks str q)) (link_spans 0 ?ps)"
    unfolding atomic_def by blast
qed


subsection \<open>Chunker: nothing is lost\<close>

lemma loop_body_concat:
  assumes "loop_body (chunks, builder, q) t = (chunks', builder', q')"
  shows "concat chunks' @ builder' = concat chunks @ builder @ concat (map snd (pieces [t] q))"
proof -
  let ?M = MAX_TELEGRAM_MESSAGE_LENGTH
  obtain chunks1 builder2 where ph:
    "(if ?M < length (builder @ t) then splitAndPush chunks (builder @ t)
      else (chunks, builder @ t)) = (chunks1, builder2)"
    by (cases "if ?M < length (builder @ t) then splitAndPush chunks (builder @ t)
               else (chunks, builder @ t)") auto
  have f: "concat chunks1 @ builder2 = concat chunks @ builder @ t"
  proof (cases "?M < length (builder @ t)")
    case False
    then show ?thesis using ph by auto
  next
    case True
    then have sp: "splitAndPush chunks (builder @ t) = (chunks1, builder2)" using ph by simp
    show ?thesis using splitAndPush_blocks [OF sp] by (metis append_assoc concat_append)
  qed
  show ?thesis
  proof (cases q)
    case Nil
    then show ?thesis using assms ph f by (simp add: loop_body_unfold)
  next
    case (Cons l rest)
    then show ?thesis using assms ph f
      by (auto simp: loop_body_unfold split: if_splits)
  qed
qed

lemma chunk_loop_concat:
  "chunk_loop ts (chunks, builder, q) = (chunks', builder', q') \<Longrightarrow>
     concat chunks' @ builder' = concat chunks @ builder @ concat (map snd (pieces ts q))"
proof (induction ts arbitrary: chunks builder q)
  case Nil
  then show ?case by simp
next
  case (Cons t ts)
  obtain c1 b1 q1 where s: "loop_body (chunks, builder, q) t = (c1, b1, q1)"
    by (cases "loop_body (chunks, builder, q) t") auto
  have q1: "q1 = tl q" using loop_body_queue [of chunks builder q t] s by simp
  have "chunk_loop ts (c1, b1, q1) = (chunks', builder', q')" using Cons.prems s by simp
  from Cons.IH [OF this] loop_body_concat [OF s] show ?case
    by (simp add: pieces_Cons [of t ts q] q1)
qed

lemma build_chunks_concat:
  "concat (fst (build_chunks str q)) = concat (map snd (pieces (split_linkReplacer str) q))"
proof -
  obtain chunks' builder' q' where
    r: "chunk_loop (split_linkReplacer str) ([], [], q) = (chunks', builder', q')"
    by (cases "chunk_loop (split_linkReplacer str) ([], [], q)") auto
  show ?thesis using chunk_loop_concat [OF r] r by (auto simp: build_chunks_def)
qed

lemma pieces_links:
  "length q \<le> length ts \<Longrightarrow> map snd (filter fst (pieces ts q)) = map linkEntity q"
  by (induction ts q rule: pieces.induct) simp_all

text \<open>
  C7. When the queue holds as many descriptors as the text has markers, the queue is
  empty after the loop over the fragments; the chunks put together are the fragments
  with the renderings of the descriptors between them, and every descriptor of the queue
  is rendered there once, in the order of the queue.
\<close>

theorem build_chunks_drains_queue:
  assumes "length q = count_markers str"
  shows "snd (build_chunks str q) = []
         \<and> concat (fst (build_chunks str q))
             = concat (map snd (pieces (split_linkReplacer str) q))
         \<and> map snd (filter fst (pieces (split_linkReplacer str) q)) = map linkEntity q"
proof -
  have "length q \<le> length (split_linkReplacer str)"
    using assms by (simp add: split_linkReplacer_def split_loop_length)
  then show ?thesis
    using assms by (simp add: build_chunks_queue build_chunks_concat pieces_links)
qed

theorem build_chunks_drains_queue_witness:
  "length [\<lparr>desc = ''d'', link = ''u''\<rparr>] = count_markers ''ab###############cd''
   \<and> build_chunks ''ab###############cd'' [\<lparr>desc = ''d'', link = ''u''\<rparr>]
       = ([''ab [d](u) cd''], [])"
proof -
  have h: "length [\<lparr>desc = ''d'', link = ''u''\<rparr>] = count_markers ''ab###############cd''"
    by code_simp
  have f: "fst (build_chunks ''ab###############cd'' [\<lparr>desc = ''d'', link = ''u''\<rparr>])
      = [''ab [d](u) cd'']"
    by code_simp
  have "snd (build_chunks ''ab###############cd'' [\<lparr>desc = ''d'', link = ''u''\<rparr>]) = []"
    using build_chunks_drains_queue [OF h] by (rule conjunct1)
  then have "build_chunks ''ab###############cd'' [\<lparr>desc = ''d'', link = ''u''\<rparr>]
       = ([''ab [d](u) cd''], [])"
    using f by (metis prod.collapse)
  then show ?thesis using h by (rule conjI [rotated])
qed


text \<open>
  C3, as the code has it. When the rendering of every descriptor that the loop takes off
  the queue (one per fragment) fits into one chunk, no chunk boundary lies strictly
  inside the rendering of a link, and the chunks put together are the fragments with the
  renderings between them.
\<close>

theorem links_that_fit_are_never_split:
  assumes "\<forall>l \<in> set (take (Suc (count_markers str)) q).
             length (linkEntity l) \<le> MAX_TELEGRAM_MESSAGE_LENGTH"
  shows "atomic (fst (build_chunks str q)) (link_spans 0 (pieces (split_linkReplacer str) q))
         \<and> concat (fst (build_chunks str q))
             = concat (map snd (pieces (split_linkReplacer str) q))"
  using build_chunks_fit(1,2) [OF assms] by blast

theorem links_that_fit_are_never_split_witness:
  "length (linkEntity \<lparr>desc = ''d'', link = ''u''\<rparr>) \<le> MAX_TELEGRAM_MESSAGE_LENGTH
   \<and> atomic (fst (build_chunks ''ab###############cd'' [\<lparr>desc = ''d'', link = ''u''\<rparr>]))
        (link_spans 0 (pieces (split_linkReplacer ''ab###############cd'')
                         [\<lparr>desc = ''d'', link = ''u''\<rparr>]))
   \<and> concat (fst (build_chunks ''ab###############cd'' [\<lparr>desc = ''d'', link = ''u''\<rparr>]))
       = ''ab [d](u) cd''"
proof -
  have l: "length (linkEntity \<lparr>desc = ''d'', link = ''u''\<rparr>) \<le> MAX_TELEGRAM_MESSAGE_LENGTH"
    by (simp add: linkEntity_def MAX_TELEGRAM_MESSAGE_LENGTH_def)
  then have h: "\<forall>l \<in> set (take (Suc (count_markers ''ab###############cd''))
                         [\<lparr>desc = ''d'', link = ''u''\<rparr>]).
      length (linkEntity l) \<le> MAX_TELEGRAM_MESSAGE_LENGTH"
    by simp
  have p: "concat (map snd (pieces (split_linkReplacer ''ab###############cd'')
                              [\<lparr>desc = ''d'', link = ''u''\<rparr>])) = ''ab [d](u) cd''"
    by code_simp
  note t = links_that_fit_are_never_split [OF h]
  have a: "atomic (fst (build_chunks ''ab###############cd'' [\<lparr>desc = ''d'', link = ''u''\<rparr>]))
        (link_spans 0 (pieces (split_linkReplacer ''ab###############cd'')
                         [\<lparr>desc = ''d'', link = ''u''\<rparr>]))"
    using t by (rule conjunct1)
  have c: "concat (fst (build_chunks ''ab###############cd'' [\<lparr>desc = ''d'', link = ''u''\<rparr>]))
       = ''ab [d](u) cd''"
    using t [THEN conjunct2] p by (rule trans)
  show ?thesis by (intro conjI l a c)
qed

lemma oversize_entity_length:
  "length (linkEntity \<lparr>desc = [], link = replicate 3500 (CHR ''a'')\<rparr>) = 3506"
  by (simp add: linkEntity_def)

lemma oversize_entity_nonempty:
  "linkEntity \<lparr>desc = [], link = replicate 3500 (CHR ''a'')\<rparr> \<noteq> []"
  by (simp add: linkEntity_def)

lemma split_marker: "split_linkReplacer marker = [[], []]"
  by code_simp

lemma oversize_first_iteration:
  "loop_body ([], [], [\<lparr>desc = [], link = replicate 3500 (CHR ''a'')\<rparr>]) []
     = ([[]], linkEntity \<lparr>desc = [], link = replicate 3500 (CHR ''a'')\<rparr>, [])"
  by (simp add: loop_body_unfold oversize_entity_length MAX_TELEGRAM_MESSAGE_LENGTH_def)

lemma oversize_cut:
  assumes "length e = 3506"
  shows "splitAndPush arr e = (arr @ [take 3500 e], drop 3500 e)"
proof -
  have 1: "substring e 0 3500 = take 3500 e"
    by (simp add: substring_take_drop)
  have 2: "substring e 3500 7000 = drop 3500 e"
    using assms by (simp add: substring_take_drop)
  have "splitAndPush_from 3500 (arr @ [take 3500 e]) e = (arr @ [take 3500 e], drop 3500 e)"
    using assms
    by (subst splitAndPush_from.simps)
       (simp add: MAX_TELEGRAM_MESSAGE_LENGTH_def 2 Let_def del: splitAndPush_from.simps)
  moreover have "splitAndPush_from 0 arr e = splitAndPush_from 3500 (arr @ [take 3500 e]) e"
    using assms
    by (subst splitAndPush_from.simps)
       (simp add: MAX_TELEGRAM_MESSAGE_LENGTH_def 1 Let_def del: splitAndPush_from.simps)
  ultimately show ?thesis by (simp add: splitAndPush_def)
qed

lemma oversize_chunks:
  "fst (build_chunks marker [\<lparr>desc = [], link = replicate 3500 (CHR ''a'')\<rparr>])
     = [[], take 3500 (linkEntity \<lparr>desc = [], link = replicate 3500 (CHR ''a'')\<rparr>),
        drop 3500 (linkEntity \<lparr>desc = [], link = replicate 3500 (CHR ''a'')\<rparr>)]"
proof -
  let ?e = "linkEntity \<lparr>desc = [], link = replicate 3500 (CHR ''a'')\<rparr>"
  have "loop_body ([[]], ?e, []) [] = ([[], take 3500 ?e], drop 3500 ?e, [])"
    using oversize_cut [OF oversize_entity_length, of "[[]]"]
    by (simp add: loop_body_unfold oversize_entity_length MAX_TELEGRAM_MESSAGE_LENGTH_def)
  then show ?thesis
    by (simp add: build_chunks_def split_marker oversize_first_iteration
        oversize_entity_length)
qed

text \<open>
  C3 as stated fails: a rendering longer than a chunk is cut by the next iteration. The
  text is one marker, the link has 3500 characters; the rendering spans \<open>0..3506\<close> and
  the second chunk ends at 3500.
\<close>

theorem oversize_link_is_split:
  "\<not> atomic (fst (build_chunks marker [\<lparr>desc = [], link = replicate 3500 (CHR ''a'')\<rparr>]))
       (link_spans 0 (pieces (split_linkReplacer marker)
                        [\<lparr>desc = [], link = replicate 3500 (CHR ''a'')\<rparr>]))"
proof -
  let ?L = "\<lparr>desc = [], link = replicate 3500 (CHR ''a'')\<rparr>"
  let ?e = "linkEntity ?L"
  have s: "(0, 3506) \<in> set (link_spans 0 (pieces (split_linkReplacer marker) [?L]))"
    by (simp add: split_marker oversize_entity_length)
  have "length (concat (take 2 [[], take 3500 ?e, drop 3500 ?e])) = 3500"
    by (simp add: oversize_entity_length numeral_2_eq_2)
  moreover have "(2::nat) \<in> set [0..<Suc (length [[], take 3500 ?e, drop 3500 ?e])]"
    by simp
  ultimately have "3500 \<in> set (boundaries [[], take 3500 ?e, drop 3500 ?e])"
    unfolding boundaries_def set_map by (metis (no_types, lifting) image_eqI)
  then have b: "3500 \<in> set (boundaries (fst (build_chunks marker [?L])))"
    by (simp only: oversize_chunks)
  show ?thesis
  proof
    assume "atomic (fst (build_chunks marker [?L]))
       (link_spans 0 (pieces (split_linkReplacer marker) [?L]))"
    then have "(3500::nat) \<le> 0 \<or> (3506::nat) \<le> 3500"
      using s b unfolding atomic_def by blast
    then show False by simp
  qed
qed

text \<open>
  C1 fails in the code: with nothing left to append after it, a rendering longer than
  3500 characters becomes a chunk as it is. The text is empty, the queue holds one
  descriptor whose link has 3500 characters.
\<close>

theorem oversize_link_makes_oversize_chunk:
  "fst (build_chunks [] [\<lparr>desc = [], link = replicate 3500 (CHR ''a'')\<rparr>])
     = [[], linkEntity \<lparr>desc = [], link = replicate 3500 (CHR ''a'')\<rparr>]
   \<and> length (linkEntity \<lparr>desc = [], link = replicate 3500 (CHR ''a'')\<rparr>) = 3506
   \<and> MAX_TELEGRAM_MESSAGE_LENGTH
       < length (linkEntity \<lparr>desc = [], link = replicate 3500 (CHR ''a'')\<rparr>)"
  by (simp add: build_chunks_def split_linkReplacer_def oversize_first_iteration
      oversize_entity_length oversize_entity_nonempty MAX_TELEGRAM_MESSAGE_LENGTH_def)

subsection \<open>The email handler\<close>

text \<open>
  C9 fails in the code: the call of the parser stands before the \<open>try\<close>, so when it throws
  the handler throws, and no request is made.
\<close>

theorem parse_failure_escapes_handler:
  "email lits cb decode tr (Inl e) q = (Inl e, q, [])"
  by (simp add: email_def)

text \<open>
  Two more ways out of the handler: a message without subject makes the escaper throw
  before the \<open>try\<close>; and when the first segment is refused, the fallback notification is
  sent from the \<open>catch\<close> block, where a second refusal is thrown on.
\<close>

lemma missing_subject_escapes_handler:
  "email_subject parsedEmail = None \<Longrightarrow>
     email lits cb decode tr (Inr parsedEmail) q = (Inl (TypeError ''replace''), q, [])"
  by (simp add: email_def Let_def)

lemma refused_twice_escapes_handler:
  "fst (email
      \<lparr>title_line = ''mail'', unknown_sender = ''?'', unknown_recipient = ''?'',
        no_subject = ''-'', no_content = ''-'', body_error = ''error''\<rparr>
      True id (\<lambda>n. Responds False ''refused'' 0)
      (Inr \<lparr>email_from = None, email_to = None, email_subject = Some ''Hi'',
             email_date = None, email_html = None, email_text = Some ''body'',
             email_attachments = []\<rparr>) [])
   = Inl (Error ''refused'')"
  by code_simp

lemma refused_once_is_caught:
  "email
      \<lparr>title_line = ''mail'', unknown_sender = ''?'', unknown_recipient = ''?'',
        no_subject = ''-'', no_content = ''-'', body_error = ''error''\<rparr>
      True id (\<lambda>n. Responds (0 < n) ''refused'' 7)
      (Inr \<lparr>email_from = None, email_to = None, email_subject = Some ''Hi'',
             email_date = None, email_html = None, email_text = Some ''body'',
             email_attachments = []\<rparr>) []
   = (Inr (), [],
      [SendMessage (''mail'' @ [LF] @ ''**Hi**'' @ [LF] @ ''**From:** ?'' @ [LF] @ ''**To:** ?''
                      @ [LF] @ dashes @ ''text'' @ dashes @ [LF] @ ''body'' @ [LF] @ ''      '')
         None,
       SendMessage ([LF] @ ''mail'' @ [LF] @ ''**Hi**'' @ [LF] @ ''**From:** ?'' @ [LF]
                      @ ''**To:** ?'' @ [LF] @ dashes @ ''error'' @ dashes @ [LF] @ ''refused''
                      @ [LF])
         None])"
  by code_simp

end
